theory Spec2Isabelle
  imports Complex_Main "HOL-Library.Word" "HOL-Library.Sublist" "HOL-Library.FSet" "HOL-Library.Finite_Map"
begin

unbundle bit_operations_syntax

section \<open>Strings of the host language\<close>

text \<open>
  A string of the program is a sequence of 16-bit code units: \<open>charCodeAt\<close> reads one of
  them, \<open>length\<close> counts them, and \<open>btoa\<close> refuses every unit above 255.
\<close>

type_synonym jsstring = "16 word list"

definition js :: "string \<Rightarrow> jsstring" where
  "js s = map (\<lambda>c. of_nat (of_char c)) s"

text \<open>
  \<open>s.includes(pat)\<close>: \<open>pat\<close> occurs in \<open>s\<close> as a contiguous block (the empty pattern
  occurs everywhere).
\<close>

fun includes_str :: "jsstring \<Rightarrow> jsstring \<Rightarrow> bool" where
  "includes_str [] pat = (pat = [])"
| "includes_str (c # s) pat = (prefix pat (c # s) \<or> includes_str s pat)"

text \<open>
  \<open>s.replace(pat, rep)\<close> with a string pattern: only the first occurrence is replaced.
  The replacement strings of this program contain no dollar sign, so \<open>rep\<close> is inserted
  literally.
\<close>

fun replace_str :: "jsstring \<Rightarrow> jsstring \<Rightarrow> jsstring \<Rightarrow> jsstring" where
  "replace_str [] pat rep = (if pat = [] then rep else [])"
| "replace_str (c # s) pat rep =
     (if prefix pat (c # s) then rep @ drop (length pat) (c # s)
      else c # replace_str s pat rep)"

text \<open>The character classes \<open>\w\<close> and \<open>\s\<close> of a regular expression without flags.\<close>

definition isWordChar :: "16 word \<Rightarrow> bool" where
  "isWordChar c \<longleftrightarrow>
     (48 \<le> c \<and> c \<le> 57) \<or> (65 \<le> c \<and> c \<le> 90) \<or> c = 95 \<or> (97 \<le> c \<and> c \<le> 122)"

definition isSpace :: "16 word \<Rightarrow> bool" where
  "isSpace c \<longleftrightarrow>
     (9 \<le> c \<and> c \<le> 13) \<or> c = 32 \<or> c = 0xA0 \<or> c = 0x1680 \<or> (0x2000 \<le> c \<and> c \<le> 0x200A)
     \<or> c = 0x2028 \<or> c = 0x2029 \<or> c = 0x202F \<or> c = 0x205F \<or> c = 0x3000 \<or> c = 0xFEFF"

text \<open>\<open>.replace(/\s+/g, ' ')\<close>: every maximal run of white space becomes one space.\<close>

fun normalizeSpaces :: "bool \<Rightarrow> jsstring \<Rightarrow> jsstring" where
  "normalizeSpaces inRun [] = []"
| "normalizeSpaces inRun (c # s) =
     (if isSpace c then (if inRun then normalizeSpaces True s else 32 # normalizeSpaces True s)
      else c # normalizeSpaces False s)"

definition trim_str :: "jsstring \<Rightarrow> jsstring" where
  "trim_str s = rev (dropWhile isSpace (rev (dropWhile isSpace s)))"

text \<open>
  \<open>toLowerCase\<close> follows the Unicode case tables of the host, which are no part of the
  repository: the functions below take it as the parameter \<open>lc\<close>. On text without
  capital letters outside A to Z it is \<open>asciiLower\<close>.
\<close>

definition asciiLower :: "jsstring \<Rightarrow> jsstring" where
  "asciiLower s = map (\<lambda>c. if 65 \<le> c \<and> c \<le> 90 then c + 32 else c) s"

section \<open>The iTunes lookup service\<close>

text \<open>\<open>cleanSearchTerm\<close> of \<open>itunesApiService.ts\<close> (and \<open>cleanTerm\<close> of the fast service).\<close>

definition cleanSearchTerm :: "(jsstring \<Rightarrow> jsstring) \<Rightarrow> jsstring \<Rightarrow> jsstring" where
  "cleanSearchTerm lc term1 =
     trim_str (normalizeSpaces False (filter (\<lambda>c. isWordChar c \<or> isSpace c) (lc term1)))"

record iTunesTrack =
  trackId :: int
  artistName :: jsstring
  trackName :: jsstring
  collectionName :: jsstring
  artworkUrl30 :: jsstring
  artworkUrl60 :: jsstring
  artworkUrl100 :: jsstring
  releaseDate :: jsstring
  primaryGenreName :: jsstring

record iTunesSearchResult =
  results :: "iTunesTrack list"
  resultCount :: int

text \<open>
  The score of one result in \<open>findBestMatch\<close>. The five \<open>score += ...\<close> statements are
  independent \<open>if\<close>s; the first two look at the artist, the next two at the track.
\<close>

definition artistPoints :: "(jsstring \<Rightarrow> jsstring) \<Rightarrow> iTunesTrack \<Rightarrow> jsstring \<Rightarrow> int" where
  "artistPoints lc r artist =
     (let resultArtist = cleanSearchTerm lc (artistName r) in
      (if includes_str resultArtist artist \<or> includes_str artist resultArtist then 10 else 0)
      + (if resultArtist = artist then 20 else 0))"

definition trackPoints :: "(jsstring \<Rightarrow> jsstring) \<Rightarrow> iTunesTrack \<Rightarrow> jsstring \<Rightarrow> int" where
  "trackPoints lc r track =
     (let resultTrack = cleanSearchTerm lc (trackName r) in
      (if includes_str resultTrack track \<or> includes_str track resultTrack then 8 else 0)
      + (if resultTrack = track then 15 else 0))"

definition artworkPoints :: "iTunesTrack \<Rightarrow> int" where
  "artworkPoints r = (if artworkUrl100 r \<noteq> [] then 5 else 0)"

definition score :: "(jsstring \<Rightarrow> jsstring) \<Rightarrow> iTunesTrack \<Rightarrow> jsstring \<Rightarrow> jsstring \<Rightarrow> int" where
  "score lc r artist track = artistPoints lc r artist + trackPoints lc r track + artworkPoints r"

text \<open>
  \<open>scoredResults.sort((a, b) => b.score - a.score)\<close> is a stable sort by descending
  score; \<open>findBestMatch\<close> then looks at the first element only.
\<close>

definition findBestMatch ::
  "(jsstring \<Rightarrow> jsstring) \<Rightarrow> iTunesTrack list \<Rightarrow> jsstring \<Rightarrow> jsstring \<Rightarrow> iTunesTrack option" where
  "findBestMatch lc rs artist track =
     (if rs = [] then None
      else
        (case sort_key (\<lambda>p. - snd p) (map (\<lambda>r. (r, score lc r artist track)) rs) of
           [] \<Rightarrow> None
         | bestMatch # _ \<Rightarrow> if snd bestMatch > 5 then Some (fst bestMatch) else None))"

definition highQualityArtwork :: "jsstring \<Rightarrow> jsstring" where
  "highQualityArtwork url = replace_str url (js ''100x100bb'') (js ''600x600bb'')"

record iTunesAPIService =
  coverCache :: "jsstring \<rightharpoonup> jsstring"

definition cacheKey :: "(jsstring \<Rightarrow> jsstring) \<Rightarrow> jsstring \<Rightarrow> jsstring \<Rightarrow> jsstring" where
  "cacheKey lc artist track = lc artist @ js ''-'' @ lc track"

text \<open>
  One call of \<open>fetch\<close>. The request is the search term with the fixed parameters
  \<open>media=music\<close>, \<open>entity=song\<close> and the limit; the cleaned term holds word characters
  and single spaces only, so \<open>encodeURIComponent\<close> cannot throw on it.
\<close>

record searchRequest =
  searchTerm :: jsstring
  limit :: nat

text \<open>
  What one \<open>fetch\<close> comes back with: the promise rejects, the status is not ok, the body
  is no well-formed \<open>iTunesSearchResult\<close> (every such body ends in the \<open>catch\<close> or fails
  the test on \<open>data.results\<close>), or the body is one.
\<close>

datatype fetch_outcome =
    NetworkError
  | HttpError
  | MalformedBody
  | Body iTunesSearchResult

text \<open>
  An \<open>async\<close> method runs up to its first \<open>await\<close> when it is called: it has either
  returned by then, or it has issued a request and is suspended on it.
\<close>

datatype ('r, 'q) started = Returned 'r | Fetching 'q

definition searchTrack_start ::
  "(jsstring \<Rightarrow> jsstring) \<Rightarrow> iTunesAPIService \<Rightarrow> jsstring \<Rightarrow> jsstring
     \<Rightarrow> (jsstring, searchRequest) started" where
  "searchTrack_start lc this artist track =
     (case coverCache this (cacheKey lc artist track) of
        Some cached \<Rightarrow> Returned cached
      | None \<Rightarrow>
          Fetching \<lparr>searchTerm = cleanSearchTerm lc artist @ js '' '' @ cleanSearchTerm lc track,
                    limit = 5\<rparr>)"

text \<open>The rest of \<open>searchTrack\<close>, run when the request has come back.\<close>

definition searchTrack_settle ::
  "(jsstring \<Rightarrow> jsstring) \<Rightarrow> iTunesAPIService \<Rightarrow> jsstring \<Rightarrow> jsstring \<Rightarrow> fetch_outcome
     \<Rightarrow> iTunesAPIService \<times> jsstring option" where
  "searchTrack_settle lc this artist track outcome =
     (case outcome of
        Body data \<Rightarrow>
          (if results data \<noteq> [] then
             (case findBestMatch lc (results data)
                     (cleanSearchTerm lc artist) (cleanSearchTerm lc track) of
                Some bestMatch \<Rightarrow>
                  (if artworkUrl100 bestMatch \<noteq> [] then
                     (let hq = highQualityArtwork (artworkUrl100 bestMatch) in
                      (this\<lparr>coverCache := (coverCache this)(cacheKey lc artist track \<mapsto> hq)\<rparr>,
                       Some hq))
                   else (this, None))
              | None \<Rightarrow> (this, None))
           else (this, None))
      | _ \<Rightarrow> (this, None))"

definition clearCache :: "iTunesAPIService \<Rightarrow> iTunesAPIService" where
  "clearCache this = this\<lparr>coverCache := Map.empty\<rparr>"

text \<open>
  The service together with the network it talks to: \<open>fetchLog\<close> lists the requests issued
  so far, and the network \<open>net\<close> answers the \<open>n\<close>-th request of a run.
\<close>

record itunesWorld =
  service :: iTunesAPIService
  fetchLog :: "searchRequest list"

text \<open>A call of \<open>searchTrack\<close> that is awaited before anything else runs.\<close>

definition searchTrack ::
  "(jsstring \<Rightarrow> jsstring) \<Rightarrow> (nat \<Rightarrow> searchRequest \<Rightarrow> fetch_outcome) \<Rightarrow> itunesWorld
     \<Rightarrow> jsstring \<Rightarrow> jsstring \<Rightarrow> itunesWorld \<times> jsstring option" where
  "searchTrack lc net w artist track =
     (case searchTrack_start lc (service w) artist track of
        Returned cached \<Rightarrow> (w, Some cached)
      | Fetching req \<Rightarrow>
          (let outcome = net (length (fetchLog w)) req;
               (this', res) = searchTrack_settle lc (service w) artist track outcome
           in (\<lparr>service = this', fetchLog = fetchLog w @ [req]\<rparr>, res)))"

text \<open>
  Several calls of \<open>searchTrack\<close> under way at once: a call runs its synchronous part, a
  request that is out comes back later. \<open>pending\<close> holds the calls that wait.
\<close>

record itunesRun =
  world :: itunesWorld
  pending :: "(jsstring \<times> jsstring) list"
  returned :: "jsstring option list"

definition callSearchTrack ::
  "(jsstring \<Rightarrow> jsstring) \<Rightarrow> itunesRun \<Rightarrow> jsstring \<Rightarrow> jsstring \<Rightarrow> itunesRun" where
  "callSearchTrack lc run artist track =
     (case searchTrack_start lc (service (world run)) artist track of
        Returned cached \<Rightarrow> run\<lparr>returned := returned run @ [Some cached]\<rparr>
      | Fetching req \<Rightarrow>
          run\<lparr>world := (world run)\<lparr>fetchLog := fetchLog (world run) @ [req]\<rparr>,
              pending := pending run @ [(artist, track)]\<rparr>)"

definition settleSearchTrack ::
  "(jsstring \<Rightarrow> jsstring) \<Rightarrow> itunesRun \<Rightarrow> nat \<Rightarrow> fetch_outcome \<Rightarrow> itunesRun" where
  "settleSearchTrack lc run i outcome =
     (if i < length (pending run) then
        (let (artist, track) = pending run ! i;
             (this', res) = searchTrack_settle lc (service (world run)) artist track outcome
         in run\<lparr>world := (world run)\<lparr>service := this'\<rparr>,
                pending := take i (pending run) @ drop (Suc i) (pending run),
                returned := returned run @ [res]\<rparr>)
      else run)"

section \<open>The fast lookup service\<close>

record FastItunesService =
  fastCoverCache :: "jsstring \<rightharpoonup> jsstring"

definition fast_getAlbumCover_start ::
  "(jsstring \<Rightarrow> jsstring) \<Rightarrow> FastItunesService \<Rightarrow> jsstring \<Rightarrow> jsstring
     \<Rightarrow> (jsstring, searchRequest) started" where
  "fast_getAlbumCover_start lc this artist track =
     (case fastCoverCache this (cacheKey lc artist track) of
        Some cached \<Rightarrow> Returned cached
      | None \<Rightarrow>
          Fetching \<lparr>searchTerm = cleanSearchTerm lc artist @ js '' '' @ cleanSearchTerm lc track,
                    limit = 3\<rparr>)"

definition fast_getAlbumCover_settle ::
  "(jsstring \<Rightarrow> jsstring) \<Rightarrow> FastItunesService \<Rightarrow> jsstring \<Rightarrow> jsstring \<Rightarrow> fetch_outcome
     \<Rightarrow> FastItunesService \<times> jsstring option" where
  "fast_getAlbumCover_settle lc this artist track outcome =
     (case outcome of
        Body data \<Rightarrow>
          (case find (\<lambda>t. artworkUrl100 t \<noteq> []) (results data) of
             Some found \<Rightarrow>
               (let hq = highQualityArtwork (artworkUrl100 found) in
                (this\<lparr>fastCoverCache := (fastCoverCache this)(cacheKey lc artist track \<mapsto> hq)\<rparr>,
                 Some hq))
           | None \<Rightarrow> (this, None))
      | _ \<Rightarrow> (this, None))"

section \<open>The generated fallback artwork\<close>

datatype js_error = InvalidCharacterError | UpdateInProgressError

text \<open>
  \<open>simpleHash\<close>: \<open>hash << 5\<close> and \<open>hash & hash\<close> work on 32-bit integers, and the
  numbers between them stay far below \<open>2^53\<close>, so each round is 32-bit arithmetic.
  \<open>Math.abs\<close> then gives a number from 0 to \<open>2^31\<close>.
\<close>

definition simpleHash :: "jsstring \<Rightarrow> nat" where
  "simpleHash str =
     nat \<bar>sint (foldl (\<lambda>(hash :: 32 word) c. (push_bit 5 hash - hash) + ucast c) 0 str)\<bar>"

definition truncate_str :: "jsstring \<Rightarrow> nat \<Rightarrow> jsstring" where
  "truncate_str text1 maxLength =
     (if length text1 > maxLength then take (maxLength - 3) text1 @ js ''...'' else text1)"

fun numberToString :: "nat \<Rightarrow> jsstring" where
  "numberToString n =
     (if n < 10 then [of_nat (48 + n)]
      else numberToString (n div 10) @ [of_nat (48 + n mod 10)])"

definition fallbackSvg :: "nat \<Rightarrow> nat \<Rightarrow> nat \<Rightarrow> jsstring \<Rightarrow> jsstring \<Rightarrow> jsstring" where
  \<open>fallbackSvg hue saturation lightness artistText trackText =
     js ''\<newline>      <svg width="600" height="600" viewBox="0 0 600 600" xmlns="http://www.w3.org/2000/svg">''
     @ js ''\<newline>        <defs>''
     @ js ''\<newline>          <linearGradient id="grad1" x1="0%" y1="0%" x2="100%" y2="100%">''
     @ js ''\<newline>            <stop offset="0%" style="stop-color:hsl(''
     @ numberToString hue
     @ js '', ''
     @ numberToString saturation
     @ js ''%, ''
     @ numberToString (lightness + 10)
     @ js ''%);stop-opacity:1" />''
     @ js ''\<newline>            <stop offset="100%" style="stop-color:hsl(''
     @ numberToString ((hue + 60) mod 360)
     @ js '', ''
     @ numberToString saturation
     @ js ''%, ''
     @ numberToString lightness
     @ js ''%);stop-opacity:1" />''
     @ js ''\<newline>          </linearGradient>''
     @ js ''\<newline>        </defs>''
     @ js ''\<newline>        <rect width="600" height="600" fill="url(#grad1)"/>''
     @ js ''\<newline>        <circle cx="300" cy="300" r="120" fill="none" stroke="rgba(255,255,255,0.3)" stroke-width="3"/>''
     @ js ''\<newline>        <circle cx="300" cy="300" r="80" fill="none" stroke="rgba(255,255,255,0.2)" stroke-width="2"/>''
     @ js ''\<newline>        <circle cx="300" cy="300" r="40" fill="rgba(255,255,255,0.2)"/>''
     @ js ''\<newline>        <circle cx="300" cy="300" r="15" fill="rgba(255,255,255,0.4)"/>''
     @ js ''\<newline>        <text x="300" y="480" text-anchor="middle" fill="rgba(255,255,255,0.8)" font-family="Arial, sans-serif" font-size="24" font-weight="300">''
     @ artistText
     @ js ''</text>''
     @ js ''\<newline>        <text x="300" y="520" text-anchor="middle" fill="rgba(255,255,255,0.6)" font-family="Arial, sans-serif" font-size="18" font-weight="300">''
     @ trackText
     @ js ''</text>''
     @ js ''\<newline>      </svg>''
     @ js ''\<newline>    ''\<close>

definition base64Alphabet :: jsstring where
  "base64Alphabet = js ''ABCDEFGHIJKLMNOPQRSTUVWXYZabcdefghijklmnopqrstuvwxyz0123456789+/''"

fun base64 :: "nat list \<Rightarrow> jsstring" where
  "base64 (a # b # c # rest) =
     [base64Alphabet ! (a div 4), base64Alphabet ! ((a mod 4) * 16 + b div 16),
      base64Alphabet ! ((b mod 16) * 4 + c div 64), base64Alphabet ! (c mod 64)] @ base64 rest"
| "base64 [a, b] =
     [base64Alphabet ! (a div 4), base64Alphabet ! ((a mod 4) * 16 + b div 16),
      base64Alphabet ! ((b mod 16) * 4), 61]"
| "base64 [a] = [base64Alphabet ! (a div 4), base64Alphabet ! ((a mod 4) * 16), 61, 61]"
| "base64 [] = []"

text \<open>\<open>btoa\<close> throws on a string with a code unit above 255 and encodes every other one.\<close>

definition btoa :: "jsstring \<Rightarrow> js_error + jsstring" where
  "btoa s = (if list_ex (\<lambda>c. 255 < c) s then Inl InvalidCharacterError
             else Inr (base64 (map unat s)))"

definition getFallbackArtwork ::
  "iTunesAPIService \<Rightarrow> jsstring \<Rightarrow> jsstring \<Rightarrow> js_error + jsstring" where
  "getFallbackArtwork this artist trackTitle =
     (let hash = simpleHash (artist @ trackTitle);
          hue = hash mod 360;
          saturation = 30 + hash mod 40;
          lightness = 20 + hash mod 30
      in case btoa (fallbackSvg hue saturation lightness
                      (truncate_str artist 20) (truncate_str trackTitle 25)) of
           Inl e \<Rightarrow> Inl e
         | Inr encoded \<Rightarrow> Inr (js ''data:image/svg+xml;base64,'' @ encoded))"

section \<open>The bulk cover updater\<close>

text \<open>\<open>Song\<close> and \<open>AlbumData\<close> declare the same fields.\<close>

record Song =
  songId :: jsstring
  title :: jsstring
  artist :: jsstring
  youtubeId :: jsstring
  albumCover :: jsstring
  albumName :: "jsstring option"
  year :: "int option"

type_synonym AlbumData = Song

record AlbumCoverUpdater =
  updateInProgress :: bool

text \<open>
  One round of the loop of \<open>updateAllCovers\<close> and \<open>updateSpecificCovers\<close>: the updated
  album, and whether its name goes to \<open>failedUpdates\<close>. Only \<open>getFallbackArtwork\<close> can throw
  inside the \<open>try\<close>; the \<open>catch\<close> calls it again, outside any handler. The progress
  callback belongs to the caller and is taken to return; the pauses between two requests
  change nothing that is modelled here.
\<close>

definition updateAlbum ::
  "(jsstring \<Rightarrow> jsstring) \<Rightarrow> (nat \<Rightarrow> searchRequest \<Rightarrow> fetch_outcome) \<Rightarrow> itunesWorld \<Rightarrow> AlbumData
     \<Rightarrow> (js_error + AlbumData \<times> bool) \<times> itunesWorld" where
  "updateAlbum lc net w album =
     (let (w', found) = searchTrack lc net w (artist album) (title album) in
      (case found of
         Some cover \<Rightarrow>
           if cover \<noteq> [] then (Inr (album\<lparr>albumCover := cover\<rparr>, False), w')
           else
             (case getFallbackArtwork (service w') (artist album) (title album) of
                Inr fallback \<Rightarrow> (Inr (album\<lparr>albumCover := fallback\<rparr>, True), w')
              | Inl _ \<Rightarrow>
                  (case getFallbackArtwork (service w') (artist album) (title album) of
                     Inr fallback \<Rightarrow> (Inr (album\<lparr>albumCover := fallback\<rparr>, True), w')
                   | Inl e \<Rightarrow> (Inl e, w')))
       | None \<Rightarrow>
           (case getFallbackArtwork (service w') (artist album) (title album) of
              Inr fallback \<Rightarrow> (Inr (album\<lparr>albumCover := fallback\<rparr>, True), w')
            | Inl _ \<Rightarrow>
                (case getFallbackArtwork (service w') (artist album) (title album) of
                   Inr fallback \<Rightarrow> (Inr (album\<lparr>albumCover := fallback\<rparr>, True), w')
                 | Inl e \<Rightarrow> (Inl e, w')))))"

fun updateLoop ::
  "(jsstring \<Rightarrow> jsstring) \<Rightarrow> (nat \<Rightarrow> searchRequest \<Rightarrow> fetch_outcome) \<Rightarrow> itunesWorld
     \<Rightarrow> AlbumData list \<Rightarrow> AlbumData list \<Rightarrow> jsstring list
     \<Rightarrow> (js_error + AlbumData list \<times> jsstring list) \<times> itunesWorld" where
  "updateLoop lc net w [] updatedAlbums failedUpdates = (Inr (updatedAlbums, failedUpdates), w)"
| "updateLoop lc net w (album # rest) updatedAlbums failedUpdates =
     (case updateAlbum lc net w album of
        (Inl e, w') \<Rightarrow> (Inl e, w')
      | (Inr (updatedAlbum, failed), w') \<Rightarrow>
          updateLoop lc net w' rest (updatedAlbums @ [updatedAlbum])
            (if failed then failedUpdates @ [artist album @ js '' - '' @ title album]
             else failedUpdates))"

definition updateSpecificCovers ::
  "(jsstring \<Rightarrow> jsstring) \<Rightarrow> (nat \<Rightarrow> searchRequest \<Rightarrow> fetch_outcome) \<Rightarrow> AlbumCoverUpdater
     \<Rightarrow> itunesWorld \<Rightarrow> AlbumData list
     \<Rightarrow> (js_error + AlbumData list) \<times> AlbumCoverUpdater \<times> itunesWorld" where
  "updateSpecificCovers lc net this w albums =
     (if updateInProgress this then (Inl UpdateInProgressError, this, w)
      else
        (case updateLoop lc net w albums [] [] of
           (Inl e, w') \<Rightarrow> (Inl e, this\<lparr>updateInProgress := False\<rparr>, w')
         | (Inr (updatedAlbums, _), w') \<Rightarrow>
             (Inr updatedAlbums, this\<lparr>updateInProgress := False\<rparr>, w')))"

text \<open>\<open>updateAllCovers\<close> runs the same loop over the constant \<open>ALBUMS_DATABASE\<close>.\<close>

definition updateAllCovers ::
  "(jsstring \<Rightarrow> jsstring) \<Rightarrow> (nat \<Rightarrow> searchRequest \<Rightarrow> fetch_outcome) \<Rightarrow> AlbumData list
     \<Rightarrow> AlbumCoverUpdater \<Rightarrow> itunesWorld
     \<Rightarrow> (js_error + AlbumData list) \<times> AlbumCoverUpdater \<times> itunesWorld" where
  "updateAllCovers lc net ALBUMS_DATABASE this w =
     (if updateInProgress this then (Inl UpdateInProgressError, this, w)
      else
        (case updateLoop lc net w ALBUMS_DATABASE [] [] of
           (Inl e, w') \<Rightarrow> (Inl e, this\<lparr>updateInProgress := False\<rparr>, w')
         | (Inr (updatedAlbums, _), w') \<Rightarrow>
             (Inr updatedAlbums, this\<lparr>updateInProgress := False\<rparr>, w')))"

section \<open>The hook useFastAlbumCovers\<close>

text \<open>
  The state of the hook: three \<open>useState\<close> cells and the \<open>loadingQueue\<close> ref. A callback
  reads the cells as they were in the render that made it (\<open>snap\<close> below) and the ref as
  it is now; the \<open>set...\<close> updaters work on the current cells.
\<close>

record FastCovers =
  loadedCovers :: "(jsstring, jsstring) fmap"
  loadingItems :: "jsstring fset"
  attemptedLoads :: "jsstring fset"
  loadingQueue :: "jsstring fset"

definition getCacheKey :: "(jsstring \<Rightarrow> jsstring) \<Rightarrow> Song \<Rightarrow> jsstring" where
  "getCacheKey lc song = lc (artist song) @ js ''-'' @ lc (title song)"

text \<open>
  \<open>loadCover\<close> up to its \<open>await\<close>: the new state, and whether
  \<open>fastItunesService.getAlbumCover\<close> was called.
\<close>

definition loadCover_start ::
  "(jsstring \<Rightarrow> jsstring) \<Rightarrow> FastCovers \<Rightarrow> FastCovers \<Rightarrow> Song \<Rightarrow> FastCovers \<times> bool" where
  "loadCover_start lc snap h song =
     (let cacheKey = getCacheKey lc song in
      if cacheKey |\<in>| attemptedLoads snap \<or> cacheKey |\<in>| fmdom (loadedCovers snap)
         \<or> cacheKey |\<in>| loadingQueue h
      then (h, False)
      else (h\<lparr>loadingQueue := finsert cacheKey (loadingQueue h),
              loadingItems := finsert (songId song) (loadingItems h)\<rparr>, True))"

text \<open>The rest of \<open>loadCover\<close>, once the service has answered with a cover or with null.\<close>

definition loadCover_settle ::
  "(jsstring \<Rightarrow> jsstring) \<Rightarrow> FastCovers \<Rightarrow> Song \<Rightarrow> jsstring option \<Rightarrow> FastCovers" where
  "loadCover_settle lc h song cover =
     (let cacheKey = getCacheKey lc song;
          loaded = (case cover of
                      Some c \<Rightarrow> if c \<noteq> [] then fmupd cacheKey c (loadedCovers h)
                                else loadedCovers h
                    | None \<Rightarrow> loadedCovers h)
      in h\<lparr>loadedCovers := loaded,
            attemptedLoads := finsert cacheKey (attemptedLoads h),
            loadingQueue := loadingQueue h |-| {|cacheKey|},
            loadingItems := loadingItems h |-| {|songId song|}\<rparr>)"

text \<open>
  \<open>loadingProgress\<close>. The quotient is taken in the reals; the floating-point division
  and product of the program round monotonically and are exact at 0 and at 1, so the
  bounds and the order of two values are the same in both.
\<close>

definition loadingProgress :: "FastCovers \<Rightarrow> Song list \<Rightarrow> real" where
  "loadingProgress h songs =
     (if length songs > 0
      then (real (fcard (attemptedLoads h)) / real (length songs)) * 100
      else 0)"

text \<open>
  The priority order of the first effect, as indices into \<open>songs\<close>: the loop
  \<open>for (radius = 1; radius <= preloadRadius; radius++)\<close> and the list built before it.
  An index names a song when it lies in the array.
\<close>

function expandOutward :: "nat \<Rightarrow> int \<Rightarrow> int \<Rightarrow> int \<Rightarrow> int list" where
  "expandOutward n centerIndex preloadRadius radius =
     (if radius \<le> preloadRadius then
        (let prevIndex = centerIndex - radius;
             nextIndex = centerIndex + radius
         in (if prevIndex \<ge> 0 \<and> prevIndex < int n then [prevIndex] else [])
            @ (if nextIndex < int n \<and> 0 \<le> nextIndex then [nextIndex] else [])
            @ expandOutward n centerIndex preloadRadius (radius + 1))
      else [])"
  by pat_completeness auto
termination
  by (relation "measure (\<lambda>(n, centerIndex, preloadRadius, radius). nat (preloadRadius + 1 - radius))")
     auto

definition priorityOrder :: "nat \<Rightarrow> int \<Rightarrow> int \<Rightarrow> int list" where
  "priorityOrder n centerIndex preloadRadius =
     (if n = 0 then []
      else (if 0 \<le> centerIndex \<and> centerIndex < int n then [centerIndex] else [])
           @ expandOutward n centerIndex preloadRadius 1)"

definition songsToLoad :: "Song list \<Rightarrow> int \<Rightarrow> int \<Rightarrow> Song list" where
  "songsToLoad songs centerIndex preloadRadius =
     map (\<lambda>i. songs ! nat i) (priorityOrder (length songs) centerIndex preloadRadius)"

section \<open>The hook useLazyAlbumCovers\<close>

record LazyLoadState =
  lazyLoadedCovers :: "(jsstring, jsstring) fmap"
  lazyLoadingCovers :: "jsstring fset"
  lazyFailedCovers :: "jsstring fset"
  lazyLoadedCount :: nat

record LazyCovers =
  lazyState :: LazyLoadState
  lazyLoadingQueue :: "jsstring fset"

definition songKey :: "Song \<Rightarrow> jsstring" where
  "songKey song = artist song @ js ''-'' @ title song"

text \<open>The image preload: \<open>onload\<close>, \<open>onerror\<close>, or the timer of ten seconds comes first.\<close>

datatype image_outcome = ImageLoaded | ImageLoadFailed | ImageLoadTimeout

text \<open>The \<open>setState\<close> updaters of the success path and of the \<open>catch\<close>.\<close>

definition storeLoaded :: "jsstring \<Rightarrow> jsstring \<Rightarrow> LazyLoadState \<Rightarrow> LazyLoadState" where
  "storeLoaded key cover prev =
     (let newLoadedCovers = fmupd key cover (lazyLoadedCovers prev) in
      prev\<lparr>lazyLoadedCovers := newLoadedCovers,
           lazyLoadingCovers := lazyLoadingCovers prev |-| {|key|},
           lazyLoadedCount := fcard (fmdom newLoadedCovers)\<rparr>)"

definition storeFailed :: "jsstring \<Rightarrow> jsstring \<Rightarrow> LazyLoadState \<Rightarrow> LazyLoadState" where
  "storeFailed key fallbackCover prev =
     (let newLoadedCovers = fmupd key fallbackCover (lazyLoadedCovers prev) in
      prev\<lparr>lazyLoadedCovers := newLoadedCovers,
           lazyLoadingCovers := lazyLoadingCovers prev |-| {|key|},
           lazyFailedCovers := finsert key (lazyFailedCovers prev),
           lazyLoadedCount := fcard (fmdom newLoadedCovers)\<rparr>)"

text \<open>
  The \<open>catch\<close> block of \<open>loadAlbumCover\<close> followed by its \<open>finally\<close>. An error of
  \<open>getFallbackArtwork\<close> in the \<open>catch\<close> leaves the function, after the \<open>finally\<close>.
\<close>

definition loadAlbumCover_catch ::
  "bool \<Rightarrow> LazyCovers \<Rightarrow> itunesWorld \<Rightarrow> Song \<Rightarrow> (js_error + unit) \<times> LazyCovers \<times> itunesWorld" where
  "loadAlbumCover_catch abortedNow h w song =
     (let key = songKey song;
          done = h\<lparr>lazyLoadingQueue := lazyLoadingQueue h |-| {|key|}\<rparr>
      in if abortedNow then (Inr (), done, w)
         else
           (case getFallbackArtwork (service w) (artist song) (title song) of
              Inl e \<Rightarrow> (Inl e, done, w)
            | Inr fallbackCover \<Rightarrow>
                (Inr (), done\<lparr>lazyState := storeFailed key fallbackCover (lazyState h)\<rparr>, w)))"

text \<open>
  \<open>loadAlbumCover\<close>, awaited to its end. \<open>aborted i\<close> is \<open>signal?.aborted\<close> at the
  \<open>i\<close>-th place the function reads it, \<open>img\<close> the outcome of the image preload.
\<close>

definition loadAlbumCover ::
  "(jsstring \<Rightarrow> jsstring) \<Rightarrow> (nat \<Rightarrow> searchRequest \<Rightarrow> fetch_outcome) \<Rightarrow> image_outcome
     \<Rightarrow> (nat \<Rightarrow> bool) \<Rightarrow> LazyLoadState \<Rightarrow> LazyCovers \<Rightarrow> itunesWorld \<Rightarrow> Song
     \<Rightarrow> (js_error + unit) \<times> LazyCovers \<times> itunesWorld" where
  "loadAlbumCover lc net img aborted snap h w song =
     (let key = songKey song in
      if key |\<in>| fmdom (lazyLoadedCovers snap) \<or> key |\<in>| lazyLoadingCovers snap
         \<or> key |\<in>| lazyFailedCovers snap
      then (Inr (), h, w)
      else if key |\<in>| lazyLoadingQueue h then (Inr (), h, w)
      else
        (let h1 = h\<lparr>lazyLoadingQueue := finsert key (lazyLoadingQueue h),
                     lazyState := (lazyState h)
                       \<lparr>lazyLoadingCovers := finsert key (lazyLoadingCovers (lazyState h))\<rparr>\<rparr>
         in if aborted 0 then loadAlbumCover_catch (aborted 2) h1 w song
            else
              (let (w1, found) = searchTrack lc net w (artist song) (title song) in
               if aborted 1 then loadAlbumCover_catch (aborted 2) h1 w1 song
               else
                 (case (case found of
                          Some c \<Rightarrow> if c \<noteq> [] then Inr c
                                    else getFallbackArtwork (service w1) (artist song) (title song)
                        | None \<Rightarrow> getFallbackArtwork (service w1) (artist song) (title song)) of
                    Inl _ \<Rightarrow> loadAlbumCover_catch (aborted 2) h1 w1 song
                  | Inr cover \<Rightarrow>
                      if cover \<noteq> [] \<and> \<not> prefix (js ''data:'') cover \<and> img \<noteq> ImageLoaded
                      then loadAlbumCover_catch (aborted 2) h1 w1 song
                      else
                        (Inr (),
                         h1\<lparr>lazyState := storeLoaded key cover (lazyState h1),
                            lazyLoadingQueue := lazyLoadingQueue h1 |-| {|key|}\<rparr>,
                         w1)))))"

text \<open>
  The order of the scheduling effect, as indices into \<open>songs\<close>: the window around the
  centre from its lowest index up, then the wider window without the first one.
  \<open>busy i\<close> says that the cover of song \<open>i\<close> is loaded or loading.
\<close>

definition lazyOrder :: "nat \<Rightarrow> int \<Rightarrow> int \<Rightarrow> int \<Rightarrow> (int \<Rightarrow> bool) \<Rightarrow> int list" where
  "lazyOrder n centerIndex preloadRadius lazyLoadRadius busy =
     (if n = 0 then []
      else
        (let preloadStart = max 0 (centerIndex - preloadRadius);
             preloadEnd = min (int n - 1) (centerIndex + preloadRadius);
             lazyStart = max 0 (centerIndex - lazyLoadRadius);
             lazyEnd = min (int n - 1) (centerIndex + lazyLoadRadius)
         in filter (\<lambda>i. \<not> busy i) [preloadStart..preloadEnd]
            @ filter (\<lambda>i. (i < preloadStart \<or> i > preloadEnd) \<and> \<not> busy i) [lazyStart..lazyEnd]))"

section \<open>The lookup service with a request queue\<close>

text \<open>
  \<open>AudioDbService\<close> keeps the promise of every lookup under way in \<open>requestQueue\<close>. A
  promise is named by its number; \<open>fetchAlbumCoverFromiTunes\<close> is called once for each.
\<close>

record AudioDbService =
  cache :: "jsstring \<rightharpoonup> jsstring"
  requestQueue :: "jsstring \<rightharpoonup> nat"

datatype settlement = Fulfilled jsstring | Rejected

record lookup =
  lookupKey :: jsstring
  settled :: "settlement option"
  resumed :: bool

record audioRun =
  audioService :: AudioDbService
  lookups :: "lookup list"

text \<open>What a caller of \<open>getAlbumCover\<close> holds: a value, or the promise it waits for.\<close>

datatype handle = Immediate jsstring | Awaits nat

text \<open>\<open>getAlbumCover\<close> up to its \<open>return\<close> or its \<open>await\<close>.\<close>

definition getAlbumCover_call :: "audioRun \<Rightarrow> jsstring \<Rightarrow> jsstring \<Rightarrow> audioRun \<times> handle" where
  "getAlbumCover_call run songTitle artistNm =
     (let cacheKey = artistNm @ js ''-'' @ songTitle in
      case cache (audioService run) cacheKey of
        Some cached \<Rightarrow> (run, Immediate cached)
      | None \<Rightarrow>
          (case requestQueue (audioService run) cacheKey of
             Some request \<Rightarrow> (run, Awaits request)
           | None \<Rightarrow>
               (let request = length (lookups run) in
                (\<lparr>audioService = (audioService run)
                     \<lparr>requestQueue := (requestQueue (audioService run))(cacheKey \<mapsto> request)\<rparr>,
                  lookups = lookups run
                     @ [\<lparr>lookupKey = cacheKey, settled = None, resumed = False\<rparr>]\<rparr>,
                 Awaits request))))"

text \<open>The lookup behind a promise comes to its end.\<close>

definition settleLookup :: "audioRun \<Rightarrow> nat \<Rightarrow> settlement \<Rightarrow> audioRun" where
  "settleLookup run request outcome =
     (if request < length (lookups run) \<and> settled (lookups run ! request) = None
      then run\<lparr>lookups := (lookups run)[request := (lookups run ! request)\<lparr>settled := Some outcome\<rparr>]\<rparr>
      else run)"

text \<open>
  The caller that made the request runs on after \<open>await request\<close>: it stores a result in
  the cache, and the \<open>finally\<close> takes the key out of the queue.
\<close>

definition resumeCreator :: "audioRun \<Rightarrow> nat \<Rightarrow> audioRun" where
  "resumeCreator run request =
     (if request < length (lookups run) \<and> \<not> resumed (lookups run ! request) then
        (case settled (lookups run ! request) of
           None \<Rightarrow> run
         | Some outcome \<Rightarrow>
             (let key = lookupKey (lookups run ! request);
                  svc = audioService run;
                  svc1 = (case outcome of
                            Fulfilled result \<Rightarrow> svc\<lparr>cache := (cache svc)(key \<mapsto> result)\<rparr>
                          | Rejected \<Rightarrow> svc)
              in \<lparr>audioService = svc1\<lparr>requestQueue := (requestQueue svc1)(key := None)\<rparr>,
                  lookups = (lookups run)[request := (lookups run ! request)\<lparr>resumed := True\<rparr>]\<rparr>))
      else run)"

datatype audio_event =
    Call jsstring jsstring
  | Settle nat settlement
  | Resume nat

fun audioStep :: "audioRun \<Rightarrow> audio_event \<Rightarrow> audioRun" where
  "audioStep run (Call songTitle artistNm) = fst (getAlbumCover_call run songTitle artistNm)"
| "audioStep run (Settle request outcome) = settleLookup run request outcome"
| "audioStep run (Resume request) = resumeCreator run request"

definition audioInit :: audioRun where
  "audioInit = \<lparr>audioService = \<lparr>cache = Map.empty, requestQueue = Map.empty\<rparr>, lookups = []\<rparr>"

definition audioExec :: "audio_event list \<Rightarrow> audioRun" where
  "audioExec events = foldl audioStep audioInit events"

text \<open>The lookups for a key that have been started and have not come to their end.\<close>

definition outstanding :: "audioRun \<Rightarrow> jsstring \<Rightarrow> nat list" where
  "outstanding run key =
     filter (\<lambda>p. lookupKey (lookups run ! p) = key \<and> settled (lookups run ! p) = None)
       [0..<length (lookups run)]"

text \<open>What a caller receives in the end; \<open>None\<close> while its promise is pending.\<close>

definition delivered :: "audioRun \<Rightarrow> handle \<Rightarrow> settlement option" where
  "delivered run h =
     (case h of
        Immediate v \<Rightarrow> Some (Fulfilled v)
      | Awaits request \<Rightarrow>
          (if request < length (lookups run) then settled (lookups run ! request) else None))"

text \<open>\<open>n\<close> callers ask for the same song one after the other, nothing else in between.\<close>

fun callMany :: "nat \<Rightarrow> audioRun \<Rightarrow> jsstring \<Rightarrow> jsstring \<Rightarrow> audioRun \<times> handle list" where
  "callMany 0 run songTitle artistNm = (run, [])"
| "callMany (Suc n) run songTitle artistNm =
     (let (run1, h) = getAlbumCover_call run songTitle artistNm;
          (run2, hs) = callMany n run1 songTitle artistNm
      in (run2, h # hs))"

text \<open>
  Sample data for the concrete instances below: a search result with the three fields the
  services read, a song with its artist and title, and the empty service.
\<close>

definition mkTrack :: "jsstring \<Rightarrow> jsstring \<Rightarrow> jsstring \<Rightarrow> iTunesTrack" where
  "mkTrack a t url =
     \<lparr>trackId = 0, artistName = a, trackName = t, collectionName = [], artworkUrl30 = [],
      artworkUrl60 = [], artworkUrl100 = url, releaseDate = [], primaryGenreName = []\<rparr>"

definition mkSong :: "jsstring \<Rightarrow> jsstring \<Rightarrow> jsstring \<Rightarrow> Song" where
  "mkSong i a t =
     \<lparr>songId = i, title = t, artist = a, youtubeId = [], albumCover = [], albumName = None,
      year = None\<rparr>"

definition emptyService :: iTunesAPIService where
  "emptyService = \<lparr>coverCache = Map.empty\<rparr>"

definition emptyWorld :: itunesWorld where
  "emptyWorld = \<lparr>service = emptyService, fetchLog = []\<rparr>"

definition emptyLazy :: LazyCovers where
  "emptyLazy =
     \<lparr>lazyState = \<lparr>lazyLoadedCovers = fmempty, lazyLoadingCovers = {||},
                    lazyFailedCovers = {||}, lazyLoadedCount = 0\<rparr>,
      lazyLoadingQueue = {||}\<rparr>"

definition emptyFast :: FastCovers where
  "emptyFast =
     \<lparr>loadedCovers = fmempty, loadingItems = {||}, attemptedLoads = {||}, loadingQueue = {||}\<rparr>"

text \<open>Whether \<open>btoa\<close> can encode the two texts that \<open>getFallbackArtwork\<close> draws.\<close>

definition drawable :: "jsstring \<Rightarrow> jsstring \<Rightarrow> bool" where
  "drawable a t \<longleftrightarrow>
     \<not> list_ex (\<lambda>c. 255 < c) (truncate_str a 20) \<and> \<not> list_ex (\<lambda>c. 255 < c) (truncate_str t 25)"

text \<open>
  The hook over time: a call of \<open>loadCover\<close> by a callback that closed over the state
  \<open>snap\<close>, or the answer of the service to a call under way.
\<close>

datatype fast_event = LoadStarts FastCovers Song | LoadSettles Song "jsstring option"

fun fastStep :: "(jsstring \<Rightarrow> jsstring) \<Rightarrow> FastCovers \<Rightarrow> fast_event \<Rightarrow> FastCovers" where
  "fastStep lc h (LoadStarts snap song) = fst (loadCover_start lc snap h song)"
| "fastStep lc h (LoadSettles song cover) = loadCover_settle lc h song cover"

fun eventSong :: "fast_event \<Rightarrow> Song" where
  "eventSong (LoadStarts snap song) = song"
| "eventSong (LoadSettles song cover) = song"

definition fastRun :: "(jsstring \<Rightarrow> jsstring) \<Rightarrow> fast_event list \<Rightarrow> FastCovers" where
  "fastRun lc events = foldl (fastStep lc) emptyFast events"

text \<open>Answers to other calls of \<open>searchTrack\<close> that come in, one after the other.\<close>

fun settleMany ::
  "(jsstring \<Rightarrow> jsstring) \<Rightarrow> iTunesAPIService \<Rightarrow> (jsstring \<times> jsstring \<times> fetch_outcome) list
     \<Rightarrow> iTunesAPIService" where
  "settleMany lc this [] = this"
| "settleMany lc this ((a, t, outcome) # rest) =
     settleMany lc (fst (searchTrack_settle lc this a t outcome)) rest"

definition emptyRun :: itunesRun where
  "emptyRun = \<lparr>world = emptyWorld, pending = [], returned = []\<rparr>"

text \<open>
  The bookkeeping of the request queue: a key in the queue names a lookup for that key
  whose creator has not run on, every such lookup is in the queue under its key, and a
  creator runs on only after its lookup has come to its end.
\<close>

definition queueInv :: "audioRun \<Rightarrow> bool" where
  "queueInv run \<longleftrightarrow>
     (\<forall>k p. requestQueue (audioService run) k = Some p \<longrightarrow>
        p < length (lookups run) \<and> lookupKey (lookups run ! p) = k \<and> \<not> resumed (lookups run ! p))
     \<and> (\<forall>p < length (lookups run). \<not> resumed (lookups run ! p) \<longrightarrow>
        requestQueue (audioService run) (lookupKey (lookups run ! p)) = Some p)
     \<and> (\<forall>p < length (lookups run). resumed (lookups run ! p) \<longrightarrow> settled (lookups run ! p) \<noteq> None)"

text \<open>
  The service and its network before round \<open>i\<close> of the loop of
  \<open>updateSpecificCovers\<close>: each round before it has made its call of \<open>searchTrack\<close>.
\<close>

fun worldBefore ::
  "(jsstring \<Rightarrow> jsstring) \<Rightarrow> (nat \<Rightarrow> searchRequest \<Rightarrow> fetch_outcome) \<Rightarrow> itunesWorld
     \<Rightarrow> AlbumData list \<Rightarrow> nat \<Rightarrow> itunesWorld" where
  "worldBefore lc net w albums 0 = w"
| "worldBefore lc net w albums (Suc i) =
     fst (searchTrack lc net (worldBefore lc net w albums i)
            (artist (albums ! i)) (title (albums ! i)))"

section \<open>Properties of the strings\<close>

declare numberToString.simps [simp del]
declare expandOutward.simps [simp del]

lemma includes_str_sublist: "includes_str s pat \<longleftrightarrow> sublist pat s"
  by (induction s) (auto simp: sublist_Cons_right)

lemma includes_str_self: "includes_str s s"
  by (simp add: includes_str_sublist)

lemma replace_str_absent: "\<not> includes_str s pat \<Longrightarrow> replace_str s pat rep = s"
  by (induction s) auto

lemma replace_str_first:
  "includes_str s pat \<Longrightarrow>
   \<exists>pre post. s = pre @ pat @ post \<and> replace_str s pat rep = pre @ rep @ post
     \<and> (\<forall>pre' post'. s = pre' @ pat @ post' \<longrightarrow> length pre \<le> length pre')"
proof (induction s)
  case Nil
  then show ?case by simp
next
  case (Cons c s)
  show ?case
  proof (cases "prefix pat (c # s)")
    case True
    then obtain post where split: "c # s = pat @ post" by (auto simp: prefix_def)
    have "replace_str (c # s) pat rep = rep @ drop (length pat) (c # s)"
      using True by simp
    moreover have "drop (length pat) (c # s) = post"
      by (simp add: split)
    ultimately have "c # s = [] @ pat @ post \<and> replace_str (c # s) pat rep = [] @ rep @ post
       \<and> (\<forall>pre' post'. c # s = pre' @ pat @ post' \<longrightarrow> length ([]::jsstring) \<le> length pre')"
      using split by simp
    then show ?thesis by blast
  next
    case False
    with Cons.prems have "includes_str s pat" by simp
    from Cons.IH [OF this] obtain pre post where
      s: "s = pre @ pat @ post" and r: "replace_str s pat rep = pre @ rep @ post"
      and m: "\<forall>pre' post'. s = pre' @ pat @ post' \<longrightarrow> length pre \<le> length pre'" by blast
    have "\<forall>pre' post'. c # s = pre' @ pat @ post' \<longrightarrow> length (c # pre) \<le> length pre'"
    proof (intro allI impI)
      fix pre' post' assume e: "c # s = pre' @ pat @ post'"
      show "length (c # pre) \<le> length pre'"
      proof (cases pre')
        case Nil
        with e have "prefix pat (c # s)" by (simp add: prefix_def)
        with False show ?thesis by simp
      next
        case (Cons d pre'')
        with e have "s = pre'' @ pat @ post'" by simp
        with m have "length pre \<le> length pre''" by blast
        with Cons show ?thesis by simp
      qed
    qed
    with s r False have "c # s = (c # pre) @ pat @ post
       \<and> replace_str (c # s) pat rep = (c # pre) @ rep @ post
       \<and> (\<forall>pre' post'. c # s = pre' @ pat @ post' \<longrightarrow> length (c # pre) \<le> length pre')"
      by simp
    then show ?thesis by blast
  qed
qed

section \<open>Match scoring\<close>

lemma sort_key_hd_max:
  assumes "sort_key f xs = b # rest"
  shows "b \<in> set xs \<and> (\<forall>x\<in>set xs. f b \<le> f x)"
proof -
  have "set (sort_key f xs) = set xs" by simp
  moreover have "sorted (map f (sort_key f xs))" by (rule sorted_sort_key)
  ultimately show ?thesis
    using assms
    by (metis list.set_intros(1) list.simps(9) set_ConsD sorted_simps(2) order_refl image_eqI
        list.set_map)
qed

lemma findBestMatch_Some:
  assumes "findBestMatch lc rs a t = Some r"
  shows "r \<in> set rs \<and> 5 < score lc r a t \<and> (\<forall>r'\<in>set rs. score lc r' a t \<le> score lc r a t)"
proof -
  let ?scored = "map (\<lambda>r. (r, score lc r a t)) rs"
  from assms obtain b rest where s: "sort_key (\<lambda>p. - snd p) ?scored = b # rest"
    and b: "5 < snd b" "fst b = r"
    by (auto simp: findBestMatch_def split: if_splits list.splits)
  from sort_key_hd_max [OF s] have m: "b \<in> set ?scored" "\<forall>x\<in>set ?scored. snd x \<le> snd b"
    by auto
  from m(1) b have "r \<in> set rs" "snd b = score lc r a t" by auto
  with m(2) b show ?thesis by auto
qed

lemma findBestMatch_None:
  assumes "\<forall>r\<in>set rs. score lc r a t \<le> 5"
  shows "findBestMatch lc rs a t = None"
proof (cases "findBestMatch lc rs a t")
  case None
  then show ?thesis .
next
  case (Some r)
  from findBestMatch_Some [OF Some] assms show ?thesis by force
qed

text \<open>
  C4, as the code has it. The two artist tests are independent, and so are the two track
  tests: a result whose cleaned artist equals the requested artist passes the substring
  test as well and gets 10 + 20 = 30 points for the artist; a result whose cleaned track
  equals the requested track gets 8 + 15 = 23 points for the track.
\<close>

theorem exact_match_points:
  "(cleanSearchTerm lc (artistName r) = a \<longrightarrow> artistPoints lc r a = 30)
   \<and> (cleanSearchTerm lc (trackName r) = t \<longrightarrow> trackPoints lc r t = 23)"
  by (simp add: artistPoints_def trackPoints_def includes_str_self)

theorem exact_match_points_witness:
  "cleanSearchTerm asciiLower (artistName (mkTrack (js ''Taylor Swift'') (js ''Anti-Hero'') []))
     = js ''taylor swift''
   \<and> artistPoints asciiLower (mkTrack (js ''Taylor Swift'') (js ''Anti-Hero'') [])
       (js ''taylor swift'') = 30
   \<and> cleanSearchTerm asciiLower (trackName (mkTrack (js ''Taylor Swift'') (js ''Anti-Hero'') []))
     = js ''antihero''
   \<and> trackPoints asciiLower (mkTrack (js ''Taylor Swift'') (js ''Anti-Hero'') [])
       (js ''antihero'') = 23"
proof -
  have a: "cleanSearchTerm asciiLower (artistName (mkTrack (js ''Taylor Swift'') (js ''Anti-Hero'') []))
     = js ''taylor swift''"
    by code_simp
  have t: "cleanSearchTerm asciiLower (trackName (mkTrack (js ''Taylor Swift'') (js ''Anti-Hero'') []))
     = js ''antihero''"
    by code_simp
  from a t exact_match_points [of asciiLower "mkTrack (js ''Taylor Swift'') (js ''Anti-Hero'') []"
      "js ''taylor swift''" "js ''antihero''"]
  show ?thesis by blast
qed

text \<open>
  C4 as the specification states it fails: a result whose cleaned artist is the requested
  artist gets 30 points for the artist, not 20, and one whose cleaned track is the requested
  track gets 23 points for the track, not 15.
\<close>

theorem exact_match_points_counterexample:
  "cleanSearchTerm asciiLower (artistName (mkTrack (js ''Taylor Swift'') (js ''Anti-Hero'') []))
     = js ''taylor swift''
   \<and> artistPoints asciiLower (mkTrack (js ''Taylor Swift'') (js ''Anti-Hero'') [])
       (js ''taylor swift'') \<noteq> 20
   \<and> cleanSearchTerm asciiLower (trackName (mkTrack (js ''Taylor Swift'') (js ''Anti-Hero'') []))
     = js ''antihero''
   \<and> trackPoints asciiLower (mkTrack (js ''Taylor Swift'') (js ''Anti-Hero'') [])
       (js ''antihero'') \<noteq> 15"
  by code_simp

text \<open>
  C5 at a failing input. The request is for (taylor swift, antihero) and the only result
  has an artist and a track in Cyrillic letters and an artwork. Neither name equals,
  contains or is contained in the requested one. \<open>cleanSearchTerm\<close> deletes every letter
  of the two names, the empty string is a substring of every string, and so the result
  gets 10 points for the artist and 8 for the track: with the 5 points for the artwork its
  score is 23, and \<open>findBestMatch\<close> returns it.
\<close>

theorem findBestMatch_selects_unrelated:
  "\<not> includes_str [0x43A, 0x438, 0x43D, 0x43E] (js ''taylor swift'')
   \<and> \<not> includes_str (js ''taylor swift'') [0x43A, 0x438, 0x43D, 0x43E]
   \<and> \<not> includes_str [0x43F, 0x435, 0x440, 0x435, 0x43C, 0x435, 0x43D] (js ''antihero'')
   \<and> \<not> includes_str (js ''antihero'') [0x43F, 0x435, 0x440, 0x435, 0x43C, 0x435, 0x43D]
   \<and> cleanSearchTerm asciiLower [0x43A, 0x438, 0x43D, 0x43E] = []
   \<and> cleanSearchTerm asciiLower [0x43F, 0x435, 0x440, 0x435, 0x43C, 0x435, 0x43D] = []
   \<and> score asciiLower
        (mkTrack [0x43A, 0x438, 0x43D, 0x43E] [0x43F, 0x435, 0x440, 0x435, 0x43C, 0x435, 0x43D]
           (js ''https://a.example/100x100bb.jpg''))
        (js ''taylor swift'') (js ''antihero'') = 23
   \<and> findBestMatch asciiLower
        [mkTrack [0x43A, 0x438, 0x43D, 0x43E] [0x43F, 0x435, 0x440, 0x435, 0x43C, 0x435, 0x43D]
           (js ''https://a.example/100x100bb.jpg'')]
        (js ''taylor swift'') (js ''antihero'')
     = Some (mkTrack [0x43A, 0x438, 0x43D, 0x43E]
               [0x43F, 0x435, 0x440, 0x435, 0x43C, 0x435, 0x43D]
               (js ''https://a.example/100x100bb.jpg''))"
  by code_simp

text \<open>
  What holds of \<open>findBestMatch\<close> for every list: a result is returned only if its score
  is above 5, and then it is a result of the list with the highest score; and nothing is
  returned when the tests of the code on the cleaned names all fail.
\<close>

lemma findBestMatch_floor:
  "(findBestMatch lc rs a t = Some r \<longrightarrow>
      r \<in> set rs \<and> 5 < score lc r a t \<and> (\<forall>r'\<in>set rs. score lc r' a t \<le> score lc r a t))
   \<and> ((\<forall>r'\<in>set rs.
          \<not> includes_str (cleanSearchTerm lc (artistName r')) a
        \<and> \<not> includes_str a (cleanSearchTerm lc (artistName r'))
        \<and> cleanSearchTerm lc (artistName r') \<noteq> a
        \<and> \<not> includes_str (cleanSearchTerm lc (trackName r')) t
        \<and> \<not> includes_str t (cleanSearchTerm lc (trackName r'))
        \<and> cleanSearchTerm lc (trackName r') \<noteq> t)
       \<longrightarrow> findBestMatch lc rs a t = None)"
proof (intro conjI impI)
  assume "findBestMatch lc rs a t = Some r"
  from findBestMatch_Some [OF this]
  show "r \<in> set rs" and "5 < score lc r a t"
    and "\<forall>r'\<in>set rs. score lc r' a t \<le> score lc r a t" by simp_all
next
  assume "\<forall>r'\<in>set rs.
          \<not> includes_str (cleanSearchTerm lc (artistName r')) a
        \<and> \<not> includes_str a (cleanSearchTerm lc (artistName r'))
        \<and> cleanSearchTerm lc (artistName r') \<noteq> a
        \<and> \<not> includes_str (cleanSearchTerm lc (trackName r')) t
        \<and> \<not> includes_str t (cleanSearchTerm lc (trackName r'))
        \<and> cleanSearchTerm lc (trackName r') \<noteq> t"
  then have "\<forall>r'\<in>set rs. score lc r' a t \<le> 5"
    by (simp add: score_def artistPoints_def trackPoints_def artworkPoints_def)
  then show "findBestMatch lc rs a t = None" by (rule findBestMatch_None)
qed

section \<open>The artwork reference that a lookup returns\<close>

lemma searchTrack_settle_Some:
  assumes "searchTrack_settle lc this a t outcome = (this', Some ref)"
  shows "\<exists>data r. outcome = Body data
           \<and> findBestMatch lc (results data) (cleanSearchTerm lc a) (cleanSearchTerm lc t) = Some r
           \<and> artworkUrl100 r \<noteq> [] \<and> ref = highQualityArtwork (artworkUrl100 r)
           \<and> this' = this\<lparr>coverCache := (coverCache this)(cacheKey lc a t \<mapsto> ref)\<rparr>"
  using assms
  by (auto simp: searchTrack_settle_def Let_def
      split: fetch_outcome.splits if_splits option.splits)

lemma fast_getAlbumCover_settle_Some:
  assumes "fast_getAlbumCover_settle lc this a t outcome = (this', Some ref)"
  shows "\<exists>data r. outcome = Body data
           \<and> find (\<lambda>t. artworkUrl100 t \<noteq> []) (results data) = Some r
           \<and> ref = highQualityArtwork (artworkUrl100 r)
           \<and> this' = this\<lparr>fastCoverCache := (fastCoverCache this)(cacheKey lc a t \<mapsto> ref)\<rparr>"
  using assms
  by (auto simp: fast_getAlbumCover_settle_def Let_def
      split: fetch_outcome.splits if_splits option.splits)

text \<open>
  C8, as the code has it. The reference that \<open>searchTrack\<close> and the fast
  \<open>getAlbumCover\<close> return is \<open>highQualityArtwork\<close> of the selected result's
  \<open>artworkUrl100\<close>. The pattern is \<open>100x100bb\<close>: a URL without it is returned as it is,
  and in a URL with it the first occurrence, and only that one, becomes \<open>600x600bb\<close>.
\<close>

theorem highQualityArtwork_substitution:
  "(searchTrack_settle lc this a t outcome = (this', Some ref) \<longrightarrow>
      (\<exists>data r. outcome = Body data
         \<and> findBestMatch lc (results data) (cleanSearchTerm lc a) (cleanSearchTerm lc t) = Some r
         \<and> ref = highQualityArtwork (artworkUrl100 r)))
   \<and> (fast_getAlbumCover_settle lc fthis a t outcome = (fthis', Some ref) \<longrightarrow>
      (\<exists>data r. outcome = Body data
         \<and> find (\<lambda>t. artworkUrl100 t \<noteq> []) (results data) = Some r
         \<and> ref = highQualityArtwork (artworkUrl100 r)))
   \<and> (\<not> includes_str url (js ''100x100bb'') \<longrightarrow> highQualityArtwork url = url)
   \<and> (includes_str url (js ''100x100bb'') \<longrightarrow>
      (\<exists>pre post. url = pre @ js ''100x100bb'' @ post
         \<and> highQualityArtwork url = pre @ js ''600x600bb'' @ post
         \<and> (\<forall>pre' post'. url = pre' @ js ''100x100bb'' @ post' \<longrightarrow> length pre \<le> length pre')))"
proof (intro conjI impI)
  assume "searchTrack_settle lc this a t outcome = (this', Some ref)"
  from searchTrack_settle_Some [OF this]
  show "\<exists>data r. outcome = Body data
         \<and> findBestMatch lc (results data) (cleanSearchTerm lc a) (cleanSearchTerm lc t) = Some r
         \<and> ref = highQualityArtwork (artworkUrl100 r)" by blast
next
  assume "fast_getAlbumCover_settle lc fthis a t outcome = (fthis', Some ref)"
  from fast_getAlbumCover_settle_Some [OF this]
  show "\<exists>data r. outcome = Body data
         \<and> find (\<lambda>t. artworkUrl100 t \<noteq> []) (results data) = Some r
         \<and> ref = highQualityArtwork (artworkUrl100 r)" by blast
next
  assume "\<not> includes_str url (js ''100x100bb'')"
  then show "highQualityArtwork url = url"
    unfolding highQualityArtwork_def by (rule replace_str_absent)
next
  assume "includes_str url (js ''100x100bb'')"
  then show "\<exists>pre post. url = pre @ js ''100x100bb'' @ post
         \<and> highQualityArtwork url = pre @ js ''600x600bb'' @ post
         \<and> (\<forall>pre' post'. url = pre' @ js ''100x100bb'' @ post' \<longrightarrow> length pre \<le> length pre')"
    unfolding highQualityArtwork_def by (rule replace_str_first)
qed

theorem highQualityArtwork_substitution_witness:
  "snd (searchTrack_settle asciiLower emptyService (js ''Taylor Swift'') (js ''Anti-Hero'')
          (Body \<lparr>results = [mkTrack (js ''Taylor Swift'') (js ''Anti-Hero'')
                                (js ''https://a.example/100x100bb.jpg'')],
                 resultCount = 1\<rparr>))
     = Some (js ''https://a.example/600x600bb.jpg'')
   \<and> snd (fast_getAlbumCover_settle asciiLower \<lparr>fastCoverCache = Map.empty\<rparr>
          (js ''Taylor Swift'') (js ''Anti-Hero'')
          (Body \<lparr>results = [mkTrack (js ''Taylor Swift'') (js ''Anti-Hero'')
                                (js ''https://a.example/100x100bb.jpg'')],
                 resultCount = 1\<rparr>))
     = Some (js ''https://a.example/600x600bb.jpg'')
   \<and> \<not> includes_str (js ''https://a.example/cover.jpg'') (js ''100x100bb'')
   \<and> highQualityArtwork (js ''https://a.example/cover.jpg'') = js ''https://a.example/cover.jpg''
   \<and> includes_str (js ''https://a.example/100x100bb.jpg'') (js ''100x100bb'')
   \<and> (\<exists>pre post. js ''https://a.example/100x100bb.jpg'' = pre @ js ''100x100bb'' @ post
         \<and> highQualityArtwork (js ''https://a.example/100x100bb.jpg'')
             = pre @ js ''600x600bb'' @ post)"
proof -
  let ?body = "Body \<lparr>results = [mkTrack (js ''Taylor Swift'') (js ''Anti-Hero'')
                                (js ''https://a.example/100x100bb.jpg'')],
                 resultCount = 1\<rparr>"
  obtain s1 where s1: "searchTrack_settle asciiLower emptyService (js ''Taylor Swift'')
      (js ''Anti-Hero'') ?body = (s1, Some (js ''https://a.example/600x600bb.jpg''))"
  proof -
    have "snd (searchTrack_settle asciiLower emptyService (js ''Taylor Swift'')
      (js ''Anti-Hero'') ?body) = Some (js ''https://a.example/600x600bb.jpg'')"
      by code_simp
    then show ?thesis using that by (metis prod.collapse)
  qed
  obtain f1 where f1: "fast_getAlbumCover_settle asciiLower \<lparr>fastCoverCache = Map.empty\<rparr>
      (js ''Taylor Swift'') (js ''Anti-Hero'') ?body
        = (f1, Some (js ''https://a.example/600x600bb.jpg''))"
  proof -
    have "snd (fast_getAlbumCover_settle asciiLower \<lparr>fastCoverCache = Map.empty\<rparr>
      (js ''Taylor Swift'') (js ''Anti-Hero'') ?body) = Some (js ''https://a.example/600x600bb.jpg'')"
      by code_simp
    then show ?thesis using that by (metis prod.collapse)
  qed
  have absent: "\<not> includes_str (js ''https://a.example/cover.jpg'') (js ''100x100bb'')"
    by code_simp
  have present: "includes_str (js ''https://a.example/100x100bb.jpg'') (js ''100x100bb'')"
    by code_simp
  note main = highQualityArtwork_substitution
  from absent main [of asciiLower emptyService "[]" "[]" NetworkError emptyService "[]"
      "\<lparr>fastCoverCache = Map.empty\<rparr>" "\<lparr>fastCoverCache = Map.empty\<rparr>"
      "js ''https://a.example/cover.jpg''"]
  have a: "highQualityArtwork (js ''https://a.example/cover.jpg'') = js ''https://a.example/cover.jpg''"
    by blast
  from present s1 f1 main [of asciiLower emptyService "js ''Taylor Swift''" "js ''Anti-Hero''" ?body s1
      "js ''https://a.example/600x600bb.jpg''" "\<lparr>fastCoverCache = Map.empty\<rparr>" f1
      "js ''https://a.example/100x100bb.jpg''"]
  have b: "\<exists>pre post. js ''https://a.example/100x100bb.jpg'' = pre @ js ''100x100bb'' @ post
         \<and> highQualityArtwork (js ''https://a.example/100x100bb.jpg'')
             = pre @ js ''600x600bb'' @ post"
    by blast
  from s1 f1 absent present a b show ?thesis by simp
qed

text \<open>
  C8 as the specification states it fails: the URL below contains \<open>100x100\<close>, it is the
  artwork of the selected result, and \<open>searchTrack\<close> returns it as it is, not with
  \<open>600x600\<close> in the place of \<open>100x100\<close>.
\<close>

theorem highQualityArtwork_counterexample:
  "includes_str (js ''https://a.example/100x100.jpg'') (js ''100x100'')
   \<and> snd (searchTrack_settle asciiLower emptyService (js ''Taylor Swift'') (js ''Anti-Hero'')
          (Body \<lparr>results = [mkTrack (js ''Taylor Swift'') (js ''Anti-Hero'')
                                (js ''https://a.example/100x100.jpg'')],
                 resultCount = 1\<rparr>))
     = Some (js ''https://a.example/100x100.jpg'')
   \<and> replace_str (js ''https://a.example/100x100.jpg'') (js ''100x100'') (js ''600x600'')
     = js ''https://a.example/600x600.jpg''
   \<and> js ''https://a.example/100x100.jpg'' \<noteq> js ''https://a.example/600x600.jpg''"
  by code_simp

section \<open>Properties of the fallback artwork\<close>

lemma small_unit: "m \<le> 255 \<Longrightarrow> (of_nat m :: 16 word) \<le> 255"
  by (simp add: word_le_nat_alt unat_of_nat)

lemma numberToString_latin1: "c \<in> set (numberToString n) \<Longrightarrow> c \<le> 255"
proof (induction n arbitrary: c rule: numberToString.induct)
  case (1 n)
  have a: "(of_nat (48 + n mod 10) :: 16 word) \<le> 255"
    by (rule small_unit) simp
  have b: "n < 10 \<Longrightarrow> (of_nat (48 + n) :: 16 word) \<le> 255"
    by (rule small_unit) simp
  from 1 a b show ?case
    by (subst (asm) (2) numberToString.simps) (auto simp del: of_nat_add split: if_splits)
qed

lemma js_latin1: "c \<in> set (js s) \<Longrightarrow> c \<le> 255"
proof -
  assume "c \<in> set (js s)"
  then obtain ch where "c = of_nat (of_char ch)" by (auto simp: js_def)
  moreover have "(of_char ch :: nat) \<le> 255"
  proof -
    have "(of_char ch :: nat) mod 256 = of_char ch" by (rule of_char_mod_256)
    then have "(of_char ch :: nat) < 256" by (metis mod_less_divisor zero_less_numeral)
    then show ?thesis by linarith
  qed
  ultimately show ?thesis by (simp only: small_unit)
qed

lemma list_ex_js [simp]: "list_ex (\<lambda>c. 255 < c) (js s) = False"
  using js_latin1 [of _ s] by (auto simp: list_ex_iff dest: leD)

lemma list_ex_numberToString [simp]: "list_ex (\<lambda>c. 255 < c) (numberToString n) = False"
  using numberToString_latin1 [of _ n] by (auto simp: list_ex_iff dest: leD)

lemma fallbackSvg_latin1:
  "list_ex (\<lambda>c. 255 < c) (fallbackSvg h s l a t)
     \<longleftrightarrow> list_ex (\<lambda>c. 255 < c) a \<or> list_ex (\<lambda>c. 255 < c) t"
  unfolding fallbackSvg_def by (simp only: list_ex_append list_ex_js list_ex_numberToString simp_thms)

lemma getFallbackArtwork_eq:
  "getFallbackArtwork this a t =
     (if list_ex (\<lambda>c. 255 < c) (truncate_str a 20) \<or> list_ex (\<lambda>c. 255 < c) (truncate_str t 25)
      then Inl InvalidCharacterError
      else Inr (js ''data:image/svg+xml;base64,''
                @ base64 (map unat (fallbackSvg (simpleHash (a @ t) mod 360)
                    (30 + simpleHash (a @ t) mod 40) (20 + simpleHash (a @ t) mod 30)
                    (truncate_str a 20) (truncate_str t 25)))))"
  by (simp add: getFallbackArtwork_def btoa_def fallbackSvg_latin1 Let_def)

lemma getFallbackArtwork_drawable:
  "drawable a t \<Longrightarrow> \<exists>img. getFallbackArtwork this a t = Inr img \<and> img \<noteq> []"
  by (simp add: getFallbackArtwork_eq drawable_def js_def)

lemma getFallbackArtwork_not_drawable:
  "\<not> drawable a t \<Longrightarrow> getFallbackArtwork this a t = Inl InvalidCharacterError"
  by (auto simp add: getFallbackArtwork_eq drawable_def)


text \<open>
  C7 at a failing input. For the artist with the letter U+0141 \<open>getFallbackArtwork\<close>
  gives no image at all: \<open>btoa\<close> throws on the text drawn into the image. The same
  defect makes \<open>loadAlbumCover\<close> fail (C3).
\<close>

theorem getFallbackArtwork_no_output:
  "getFallbackArtwork emptyService (0x141 # js ''ona'') (js ''Song'') = Inl InvalidCharacterError"
proof -
  have "\<not> drawable (0x141 # js ''ona'') (js ''Song'')"
    by (simp add: drawable_def truncate_str_def js_def)
  then show ?thesis by (rule getFallbackArtwork_not_drawable)
qed

section \<open>Errors of the lookup in useLazyAlbumCovers\<close>

text \<open>
  C3 at a failing input. The artist begins with the letter U+0141, the request fails, and
  nothing is aborted: \<open>searchTrack\<close> returns null, \<open>getFallbackArtwork\<close> throws in the
  \<open>try\<close> and again in the \<open>catch\<close>, and \<open>loadAlbumCover\<close> ends with that error. The song
  stays in \<open>loadingCovers\<close> and no cover is stored for it.
\<close>

theorem loadAlbumCover_throws:
  "fst (loadAlbumCover asciiLower (\<lambda>n req. NetworkError) ImageLoaded (\<lambda>i. False)
          (lazyState emptyLazy) emptyLazy emptyWorld
          (mkSong (js ''1'') (0x141 # js ''ona'') (js ''Song'')))
     = Inl InvalidCharacterError
   \<and> lazyLoadedCovers (lazyState (fst (snd
        (loadAlbumCover asciiLower (\<lambda>n req. NetworkError) ImageLoaded (\<lambda>i. False)
          (lazyState emptyLazy) emptyLazy emptyWorld
          (mkSong (js ''1'') (0x141 # js ''ona'') (js ''Song'')))))) = fmempty"
proof -
  have nd: "\<not> drawable (0x141 # js ''ona'') (js ''Song'')"
    by (simp add: drawable_def truncate_str_def js_def)
  have fb: "\<And>this. getFallbackArtwork this (0x141 # js ''ona'') (js ''Song'') = Inl InvalidCharacterError"
    by (rule getFallbackArtwork_not_drawable [OF nd])
  have st: "searchTrack asciiLower (\<lambda>n req. NetworkError) emptyWorld (0x141 # js ''ona'') (js ''Song'')
      = (\<lparr>service = emptyService,
          fetchLog = [\<lparr>searchTerm = cleanSearchTerm asciiLower (0x141 # js ''ona'') @ js '' ''
                          @ cleanSearchTerm asciiLower (js ''Song''), limit = 5\<rparr>]\<rparr>, None)"
    by (simp add: searchTrack_def searchTrack_start_def searchTrack_settle_def emptyWorld_def
        emptyService_def Let_def)
  show ?thesis
    by (simp add: loadAlbumCover_def loadAlbumCover_catch_def Let_def mkSong_def emptyLazy_def
        st fb songKey_def)
qed

text \<open>
  Away from that slip the claim holds: when the two texts can be encoded and nothing is
  aborted, \<open>loadAlbumCover\<close> ends without an error for every answer of the network and of
  the image preload, and a cover is stored for the song.
\<close>

lemma loadAlbumCover_catch_absorbs:
  assumes "drawable (artist song) (title song)"
  shows "fst (loadAlbumCover_catch False h w song) = Inr ()
    \<and> songKey song |\<in>| fmdom (lazyLoadedCovers (lazyState (fst (snd (loadAlbumCover_catch False h w song)))))"
proof -
  from getFallbackArtwork_drawable [OF assms, of "service w"] obtain img where
    "getFallbackArtwork (service w) (artist song) (title song) = Inr img" by blast
  then show ?thesis
    by (simp add: loadAlbumCover_catch_def Let_def storeFailed_def)
qed

lemma loadAlbumCover_absorbs:
  assumes d: "drawable (artist song) (title song)"
    and fresh: "songKey song |\<notin>| fmdom (lazyLoadedCovers snap)"
      "songKey song |\<notin>| lazyLoadingCovers snap" "songKey song |\<notin>| lazyFailedCovers snap"
      "songKey song |\<notin>| lazyLoadingQueue h"
  shows "fst (loadAlbumCover lc net img (\<lambda>i. False) snap h w song) = Inr ()
    \<and> songKey song |\<in>| fmdom (lazyLoadedCovers (lazyState (fst (snd
          (loadAlbumCover lc net img (\<lambda>i. False) snap h w song)))))"
proof -
  obtain w1 found where s: "searchTrack lc net w (artist song) (title song) = (w1, found)"
    by (cases "searchTrack lc net w (artist song) (title song)")
  from getFallbackArtwork_drawable [OF d, of "service w1"] obtain fb where
    fb: "getFallbackArtwork (service w1) (artist song) (title song) = Inr fb" by blast
  note c = loadAlbumCover_catch_absorbs [OF d]
  show ?thesis
    using fresh s fb c
    by (auto simp: loadAlbumCover_def Let_def storeLoaded_def split: option.splits)
qed

section \<open>The frame of the bulk cover updater\<close>

lemma updateAlbum_frame:
  assumes "updateAlbum lc net w album = (Inr (u, f), w')"
  shows "u = album\<lparr>albumCover := albumCover u\<rparr>"
  using assms
  by (auto simp: updateAlbum_def Let_def split: prod.splits option.splits if_splits sum.splits)

lemma updateAlbum_total:
  assumes "drawable (artist album) (title album)"
  shows "\<exists>u f w'. updateAlbum lc net w album = (Inr (u, f), w')"
proof -
  obtain w1 found where s: "searchTrack lc net w (artist album) (title album) = (w1, found)"
    by (cases "searchTrack lc net w (artist album) (title album)")
  from getFallbackArtwork_drawable [OF assms, of "service w1"] obtain img where
    "getFallbackArtwork (service w1) (artist album) (title album) = Inr img" by blast
  with s show ?thesis
    by (auto simp: updateAlbum_def Let_def split: option.splits)
qed

lemma updateAlbum_cover:
  assumes "updateAlbum lc net w album = (Inr (u, f), w')"
  shows "(\<not> f \<and> albumCover u \<noteq> [] \<and> snd (searchTrack lc net w (artist album) (title album)) = Some (albumCover u))
         \<or> (f \<and> getFallbackArtwork (service w') (artist album) (title album) = Inr (albumCover u))"
  using assms
  by (auto simp: updateAlbum_def Let_def split: prod.splits option.splits if_splits sum.splits)

lemma updateLoop_frame:
  "updateLoop lc net w albums acc fl = (Inr (out, fl'), w') \<Longrightarrow>
   \<exists>covers. length covers = length albums
      \<and> out = acc @ map (\<lambda>(a, c). a\<lparr>albumCover := c\<rparr>) (zip albums covers)"
proof (induction albums arbitrary: w acc fl)
  case Nil
  then show ?case by simp
next
  case (Cons album rest)
  from Cons.prems obtain u f w1 where
    one: "updateAlbum lc net w album = (Inr (u, f), w1)"
    and more: "updateLoop lc net w1 rest (acc @ [u])
        (if f then fl @ [artist album @ js '' - '' @ title album] else fl) = (Inr (out, fl'), w')"
    by (auto split: prod.splits sum.splits)
  from Cons.IH [OF more] obtain covers where
    c: "length covers = length rest"
       "out = (acc @ [u]) @ map (\<lambda>(a, c). a\<lparr>albumCover := c\<rparr>) (zip rest covers)" by blast
  from updateAlbum_frame [OF one] have u: "u = album\<lparr>albumCover := albumCover u\<rparr>" .
  have "length (albumCover u # covers) = length (album # rest)" using c by simp
  moreover have "out = acc @ map (\<lambda>(a, c). a\<lparr>albumCover := c\<rparr>) (zip (album # rest) (albumCover u # covers))"
    using c u by simp
  ultimately show ?case by blast
qed

lemma updateLoop_total:
  "\<forall>album\<in>set albums. drawable (artist album) (title album) \<Longrightarrow>
   \<exists>out fl' w'. updateLoop lc net w albums acc fl = (Inr (out, fl'), w')"
proof (induction albums arbitrary: w acc fl)
  case Nil
  then show ?case by simp
next
  case (Cons album rest)
  then have "drawable (artist album) (title album)" by simp
  from updateAlbum_total [OF this, of lc net w] obtain u f w1 where
    one: "updateAlbum lc net w album = (Inr (u, f), w1)" by blast
  from Cons.prems have "\<forall>album\<in>set rest. drawable (artist album) (title album)" by simp
  from Cons.IH [OF this, of w1 "acc @ [u]"
      "if f then fl @ [artist album @ js '' - '' @ title album] else fl"]
  show ?case using one by simp
qed
lemma updateAlbum_world:
  "snd (updateAlbum lc net w album) = fst (searchTrack lc net w (artist album) (title album))"
  by (auto simp: updateAlbum_def Let_def split: prod.splits option.splits sum.splits)

lemma updateAlbum_found:
  assumes "updateAlbum lc net w album = (Inr (u, f), w')"
  shows "(\<forall>ref. snd (searchTrack lc net w (artist album) (title album)) = Some ref \<and> ref \<noteq> []
            \<longrightarrow> albumCover u = ref)
       \<and> (snd (searchTrack lc net w (artist album) (title album)) = None
          \<or> snd (searchTrack lc net w (artist album) (title album)) = Some []
            \<longrightarrow> getFallbackArtwork (service (fst (searchTrack lc net w (artist album) (title album))))
                  (artist album) (title album) = Inr (albumCover u))"
  using assms
  by (auto simp: updateAlbum_def Let_def split: prod.splits option.splits if_splits sum.splits)

lemma worldBefore_Cons:
  "worldBefore lc net w (album # rest) (Suc i)
     = worldBefore lc net (fst (searchTrack lc net w (artist album) (title album))) rest i"
  by (induction i) simp_all

lemma updateLoop_covers:
  "updateLoop lc net w albums acc fl = (Inr (out, fl'), w') \<Longrightarrow> i < length albums \<Longrightarrow>
   (\<forall>ref. snd (searchTrack lc net (worldBefore lc net w albums i)
                  (artist (albums ! i)) (title (albums ! i))) = Some ref \<and> ref \<noteq> []
            \<longrightarrow> albumCover (out ! (length acc + i)) = ref)
   \<and> (snd (searchTrack lc net (worldBefore lc net w albums i)
              (artist (albums ! i)) (title (albums ! i))) = None
       \<or> snd (searchTrack lc net (worldBefore lc net w albums i)
              (artist (albums ! i)) (title (albums ! i))) = Some []
         \<longrightarrow> getFallbackArtwork
               (service (fst (searchTrack lc net (worldBefore lc net w albums i)
                               (artist (albums ! i)) (title (albums ! i)))))
               (artist (albums ! i)) (title (albums ! i))
             = Inr (albumCover (out ! (length acc + i))))"
proof (induction albums arbitrary: w acc fl i)
  case Nil
  then show ?case by simp
next
  case (Cons album rest)
  from Cons.prems(1) obtain u f w1 where
    one: "updateAlbum lc net w album = (Inr (u, f), w1)"
    and more: "updateLoop lc net w1 rest (acc @ [u])
        (if f then fl @ [artist album @ js '' - '' @ title album] else fl) = (Inr (out, fl'), w')"
    by (auto split: prod.splits sum.splits)
  from one updateAlbum_world [of lc net w album]
  have w1: "w1 = fst (searchTrack lc net w (artist album) (title album))" by simp
  show ?case
  proof (cases i)
    case 0
    from updateLoop_frame [OF more] obtain covers where
      "out = (acc @ [u]) @ map (\<lambda>(a, c). a\<lparr>albumCover := c\<rparr>) (zip rest covers)" by blast
    then have "out ! (length acc + 0) = u" by (simp add: nth_append)
    with updateAlbum_found [OF one] 0 show ?thesis by simp
  next
    case (Suc j)
    with Cons.prems(2) have j: "j < length rest" by simp
    from Cons.IH [OF more j]
    show ?thesis unfolding Suc worldBefore_Cons w1 [symmetric] by simp
  qed
qed

text \<open>
  C10, as the code has it. Both methods throw when an update is under way, and
  \<open>updateAllCovers\<close> does to the database what \<open>updateSpecificCovers\<close> does to its
  argument. Whenever a list is returned it has the length and the order of the input, and
  each album differs from its input at most in \<open>albumCover\<close>. The new \<open>albumCover\<close> of
  album \<open>i\<close> is the artwork that \<open>searchTrack\<close> returned for it in round \<open>i\<close>, when it
  returned one, and the generated fallback artwork when it returned null (or an empty
  reference). A list is returned when no update is under way and the fallback artwork of
  every album can be encoded.
\<close>

theorem updateCovers_frame:
  "(updateInProgress this \<longrightarrow>
      fst (updateSpecificCovers lc net this w albums) = Inl UpdateInProgressError
      \<and> fst (updateAllCovers lc net albums this w) = Inl UpdateInProgressError)
   \<and> updateAllCovers lc net albums this w = updateSpecificCovers lc net this w albums
   \<and> (fst (updateSpecificCovers lc net this w albums) = Inr out \<longrightarrow>
      length out = length albums
      \<and> (\<forall>i < length albums.
            songId (out ! i) = songId (albums ! i) \<and> title (out ! i) = title (albums ! i)
          \<and> artist (out ! i) = artist (albums ! i) \<and> youtubeId (out ! i) = youtubeId (albums ! i)
          \<and> albumName (out ! i) = albumName (albums ! i) \<and> year (out ! i) = year (albums ! i)
          \<and> (\<forall>ref. snd (searchTrack lc net (worldBefore lc net w albums i)
                           (artist (albums ! i)) (title (albums ! i))) = Some ref \<and> ref \<noteq> []
                 \<longrightarrow> albumCover (out ! i) = ref)
          \<and> (snd (searchTrack lc net (worldBefore lc net w albums i)
                     (artist (albums ! i)) (title (albums ! i))) = None
              \<or> snd (searchTrack lc net (worldBefore lc net w albums i)
                     (artist (albums ! i)) (title (albums ! i))) = Some []
                \<longrightarrow> getFallbackArtwork
                      (service (fst (searchTrack lc net (worldBefore lc net w albums i)
                                      (artist (albums ! i)) (title (albums ! i)))))
                      (artist (albums ! i)) (title (albums ! i))
                    = Inr (albumCover (out ! i)))))
   \<and> (\<not> updateInProgress this
       \<and> (\<forall>album\<in>set albums. drawable (artist album) (title album)) \<longrightarrow>
      (\<exists>out'. fst (updateSpecificCovers lc net this w albums) = Inr out'))"
proof (intro conjI impI)
  assume "updateInProgress this"
  then show "fst (updateSpecificCovers lc net this w albums) = Inl UpdateInProgressError"
    and "fst (updateAllCovers lc net albums this w) = Inl UpdateInProgressError"
    by (simp_all add: updateSpecificCovers_def updateAllCovers_def)
next
  show "updateAllCovers lc net albums this w = updateSpecificCovers lc net this w albums"
    by (simp add: updateSpecificCovers_def updateAllCovers_def)
next
  assume r: "fst (updateSpecificCovers lc net this w albums) = Inr out"
  then obtain fl' w' where loop: "updateLoop lc net w albums [] [] = (Inr (out, fl'), w')"
    by (auto simp: updateSpecificCovers_def split: if_splits prod.splits sum.splits)
  from updateLoop_frame [OF loop] obtain covers where
    c: "length covers = length albums"
       "out = map (\<lambda>(a, c). a\<lparr>albumCover := c\<rparr>) (zip albums covers)" by auto
  then show "length out = length albums" by simp
  show "\<forall>i < length albums.
            songId (out ! i) = songId (albums ! i) \<and> title (out ! i) = title (albums ! i)
          \<and> artist (out ! i) = artist (albums ! i) \<and> youtubeId (out ! i) = youtubeId (albums ! i)
          \<and> albumName (out ! i) = albumName (albums ! i) \<and> year (out ! i) = year (albums ! i)
          \<and> (\<forall>ref. snd (searchTrack lc net (worldBefore lc net w albums i)
                           (artist (albums ! i)) (title (albums ! i))) = Some ref \<and> ref \<noteq> []
                 \<longrightarrow> albumCover (out ! i) = ref)
          \<and> (snd (searchTrack lc net (worldBefore lc net w albums i)
                     (artist (albums ! i)) (title (albums ! i))) = None
              \<or> snd (searchTrack lc net (worldBefore lc net w albums i)
                     (artist (albums ! i)) (title (albums ! i))) = Some []
                \<longrightarrow> getFallbackArtwork
                      (service (fst (searchTrack lc net (worldBefore lc net w albums i)
                                      (artist (albums ! i)) (title (albums ! i)))))
                      (artist (albums ! i)) (title (albums ! i))
                    = Inr (albumCover (out ! i)))"
  proof (intro allI impI)
    fix i assume i: "i < length albums"
    have fields: "songId (out ! i) = songId (albums ! i) \<and> title (out ! i) = title (albums ! i)
          \<and> artist (out ! i) = artist (albums ! i) \<and> youtubeId (out ! i) = youtubeId (albums ! i)
          \<and> albumName (out ! i) = albumName (albums ! i) \<and> year (out ! i) = year (albums ! i)"
      using c i by simp
    from updateLoop_covers [OF loop i]
    have covers: "(\<forall>ref. snd (searchTrack lc net (worldBefore lc net w albums i)
                           (artist (albums ! i)) (title (albums ! i))) = Some ref \<and> ref \<noteq> []
                 \<longrightarrow> albumCover (out ! i) = ref)
          \<and> (snd (searchTrack lc net (worldBefore lc net w albums i)
                     (artist (albums ! i)) (title (albums ! i))) = None
              \<or> snd (searchTrack lc net (worldBefore lc net w albums i)
                     (artist (albums ! i)) (title (albums ! i))) = Some []
                \<longrightarrow> getFallbackArtwork
                      (service (fst (searchTrack lc net (worldBefore lc net w albums i)
                                      (artist (albums ! i)) (title (albums ! i)))))
                      (artist (albums ! i)) (title (albums ! i))
                    = Inr (albumCover (out ! i)))"
      by simp
    from fields covers
    show "songId (out ! i) = songId (albums ! i) \<and> title (out ! i) = title (albums ! i)
          \<and> artist (out ! i) = artist (albums ! i) \<and> youtubeId (out ! i) = youtubeId (albums ! i)
          \<and> albumName (out ! i) = albumName (albums ! i) \<and> year (out ! i) = year (albums ! i)
          \<and> (\<forall>ref. snd (searchTrack lc net (worldBefore lc net w albums i)
                           (artist (albums ! i)) (title (albums ! i))) = Some ref \<and> ref \<noteq> []
                 \<longrightarrow> albumCover (out ! i) = ref)
          \<and> (snd (searchTrack lc net (worldBefore lc net w albums i)
                     (artist (albums ! i)) (title (albums ! i))) = None
              \<or> snd (searchTrack lc net (worldBefore lc net w albums i)
                     (artist (albums ! i)) (title (albums ! i))) = Some []
                \<longrightarrow> getFallbackArtwork
                      (service (fst (searchTrack lc net (worldBefore lc net w albums i)
                                      (artist (albums ! i)) (title (albums ! i)))))
                      (artist (albums ! i)) (title (albums ! i))
                    = Inr (albumCover (out ! i)))"
      by (simp only: simp_thms)
  qed
next
  assume "\<not> updateInProgress this \<and> (\<forall>album\<in>set albums. drawable (artist album) (title album))"
  then have idle: "\<not> updateInProgress this"
    and ok: "\<forall>album\<in>set albums. drawable (artist album) (title album)" by simp_all
  from updateLoop_total [OF ok, of lc net w "[]" "[]"] obtain out' fl' w' where
    "updateLoop lc net w albums [] [] = (Inr (out', fl'), w')" by blast
  with idle show "\<exists>out'. fst (updateSpecificCovers lc net this w albums) = Inr out'"
    by (simp add: updateSpecificCovers_def)
qed

theorem updateCovers_frame_witness:
  "\<not> updateInProgress \<lparr>updateInProgress = False\<rparr>
   \<and> drawable (js ''Taylor Swift'') (js ''Anti-Hero'')
   \<and> snd (searchTrack asciiLower (\<lambda>n req. NetworkError) emptyWorld
            (js ''Taylor Swift'') (js ''Anti-Hero'')) = None
   \<and> (\<exists>out. fst (updateSpecificCovers asciiLower (\<lambda>n req. NetworkError)
                    \<lparr>updateInProgress = False\<rparr> emptyWorld
                    [mkSong (js ''1'') (js ''Taylor Swift'') (js ''Anti-Hero'')]) = Inr out
          \<and> length out = 1
          \<and> songId (out ! 0) = js ''1'' \<and> title (out ! 0) = js ''Anti-Hero''
          \<and> artist (out ! 0) = js ''Taylor Swift''
          \<and> getFallbackArtwork emptyService (js ''Taylor Swift'') (js ''Anti-Hero'')
              = Inr (albumCover (out ! 0)))
   \<and> snd (searchTrack asciiLower
            (\<lambda>n req. Body \<lparr>results = [mkTrack (js ''Taylor Swift'') (js ''Anti-Hero'')
                                          (js ''https://a.example/100x100bb.jpg'')],
                           resultCount = 1\<rparr>)
            emptyWorld (js ''Taylor Swift'') (js ''Anti-Hero''))
       = Some (js ''https://a.example/600x600bb.jpg'')
   \<and> (\<exists>out. fst (updateSpecificCovers asciiLower
                    (\<lambda>n req. Body \<lparr>results = [mkTrack (js ''Taylor Swift'') (js ''Anti-Hero'')
                                                  (js ''https://a.example/100x100bb.jpg'')],
                                   resultCount = 1\<rparr>)
                    \<lparr>updateInProgress = False\<rparr> emptyWorld
                    [mkSong (js ''1'') (js ''Taylor Swift'') (js ''Anti-Hero'')]) = Inr out
          \<and> albumCover (out ! 0) = js ''https://a.example/600x600bb.jpg'')
   \<and> updateInProgress \<lparr>updateInProgress = True\<rparr>
   \<and> fst (updateAllCovers asciiLower (\<lambda>n req. NetworkError)
          [mkSong (js ''1'') (js ''Taylor Swift'') (js ''Anti-Hero'')]
          \<lparr>updateInProgress = True\<rparr> emptyWorld) = Inl UpdateInProgressError"
proof -
  let ?albums = "[mkSong (js ''1'') (js ''Taylor Swift'') (js ''Anti-Hero'')]"
  let ?down = "\<lambda>(n::nat) (req::searchRequest). NetworkError"
  let ?up = "\<lambda>(n::nat) (req::searchRequest).
      Body \<lparr>results = [mkTrack (js ''Taylor Swift'') (js ''Anti-Hero'')
                          (js ''https://a.example/100x100bb.jpg'')], resultCount = 1\<rparr>"
  let ?idle = "\<lparr>updateInProgress = False\<rparr>"
  have d: "drawable (js ''Taylor Swift'') (js ''Anti-Hero'')"
    by (simp add: drawable_def truncate_str_def js_def)
  then have all: "\<forall>album\<in>set ?albums. drawable (artist album) (title album)"
    by (simp add: mkSong_def)
  have lost: "searchTrack asciiLower ?down emptyWorld (js ''Taylor Swift'') (js ''Anti-Hero'')
      = (\<lparr>service = emptyService,
          fetchLog = [\<lparr>searchTerm = cleanSearchTerm asciiLower (js ''Taylor Swift'') @ js '' ''
                          @ cleanSearchTerm asciiLower (js ''Anti-Hero''), limit = 5\<rparr>]\<rparr>, None)"
    by (simp add: searchTrack_def searchTrack_start_def searchTrack_settle_def emptyWorld_def
        emptyService_def Let_def)
  have found: "snd (searchTrack asciiLower ?up emptyWorld (js ''Taylor Swift'') (js ''Anti-Hero''))
      = Some (js ''https://a.example/600x600bb.jpg'')"
    by code_simp
  have url: "js ''https://a.example/600x600bb.jpg'' \<noteq> []" by (simp add: js_def)
  note down = updateCovers_frame [where ?this = ?idle and lc = asciiLower and net = ?down
      and w = emptyWorld and albums = ?albums]
  from all down obtain out where
    o: "fst (updateSpecificCovers asciiLower ?down ?idle emptyWorld ?albums) = Inr out" by auto
  from o down [where out = out]
  have frame: "length out = 1 \<and> songId (out ! 0) = js ''1'' \<and> title (out ! 0) = js ''Anti-Hero''
          \<and> artist (out ! 0) = js ''Taylor Swift''"
    by (simp add: mkSong_def)
  from o down [where out = out] lost
  have fb: "getFallbackArtwork emptyService (js ''Taylor Swift'') (js ''Anti-Hero'')
      = Inr (albumCover (out ! 0))"
    by (simp add: mkSong_def)
  note up = updateCovers_frame [where ?this = ?idle and lc = asciiLower and net = ?up
      and w = emptyWorld and albums = ?albums]
  from all up obtain out2 where
    o2: "fst (updateSpecificCovers asciiLower ?up ?idle emptyWorld ?albums) = Inr out2" by auto
  from o2 up [where out = out2] found url
  have hit: "albumCover (out2 ! 0) = js ''https://a.example/600x600bb.jpg''"
    by (simp add: mkSong_def)
  from updateCovers_frame [where ?this = "\<lparr>updateInProgress = True\<rparr>" and lc = asciiLower
      and net = ?down and w = emptyWorld and albums = ?albums]
  have busy: "fst (updateAllCovers asciiLower ?down ?albums \<lparr>updateInProgress = True\<rparr> emptyWorld)
      = Inl UpdateInProgressError" by simp
  from lost have none: "snd (searchTrack asciiLower ?down emptyWorld (js ''Taylor Swift'')
      (js ''Anti-Hero'')) = None" by simp
  from d none o frame fb found o2 hit busy show ?thesis by auto
qed

text \<open>
  C10 as stated fails for an updater that is already at work: it throws, for every list.
\<close>

theorem updateCovers_counterexample:
  "fst (updateSpecificCovers asciiLower (\<lambda>n req. NetworkError) \<lparr>updateInProgress = True\<rparr>
          emptyWorld [mkSong (js ''1'') (js ''Taylor Swift'') (js ''Anti-Hero'')])
     = Inl UpdateInProgressError"
  by (simp add: updateSpecificCovers_def)

section \<open>The priority order of the loads\<close>

lemma expandOutward_step:
  "k \<le> r \<Longrightarrow> expandOutward n c r k
        = (if 0 \<le> c - k \<and> c - k < int n then [c - k] else [])
          @ (if c + k < int n \<and> 0 \<le> c + k then [c + k] else [])
          @ expandOutward n c r (k + 1)"
  by (subst expandOutward.simps) (simp add: Let_def)

lemma expandOutward_stop: "\<not> k \<le> r \<Longrightarrow> expandOutward n c r k = []"
  by (subst expandOutward.simps) simp

lemma expandOutward_mem:
  "1 \<le> k \<Longrightarrow>
   i \<in> set (expandOutward n c r k) \<longleftrightarrow> 0 \<le> i \<and> i < int n \<and> k \<le> \<bar>i - c\<bar> \<and> \<bar>i - c\<bar> \<le> r"
proof (induction n c r k rule: expandOutward.induct)
  case (1 n c r k)
  show ?case
  proof (cases "k \<le> r")
    case True
    with 1 have ih: "i \<in> set (expandOutward n c r (k + 1))
        \<longleftrightarrow> 0 \<le> i \<and> i < int n \<and> k + 1 \<le> \<bar>i - c\<bar> \<and> \<bar>i - c\<bar> \<le> r" by simp
    have "i \<in> set (expandOutward n c r k) \<longleftrightarrow>
        (i = c - k \<and> 0 \<le> c - k \<and> c - k < int n) \<or> (i = c + k \<and> c + k < int n \<and> 0 \<le> c + k)
        \<or> i \<in> set (expandOutward n c r (k + 1))"
      by (simp add: expandOutward_step [OF True])
    also have "\<dots> \<longleftrightarrow> 0 \<le> i \<and> i < int n \<and> k \<le> \<bar>i - c\<bar> \<and> \<bar>i - c\<bar> \<le> r"
      unfolding ih using True 1(2) by arith
    finally show ?thesis .
  next
    case False
    then show ?thesis by (simp add: expandOutward_stop)
  qed
qed
lemma expandOutward_sorted:
  "1 \<le> k \<Longrightarrow> sorted (map (\<lambda>i. \<bar>i - c\<bar>) (expandOutward n c r k))"
proof (induction n c r k rule: expandOutward.induct)
  case (1 n c r k)
  show ?case
  proof (cases "k \<le> r")
    case True
    with 1 have ih: "sorted (map (\<lambda>i. \<bar>i - c\<bar>) (expandOutward n c r (k + 1)))" by simp
    have far: "\<forall>i\<in>set (expandOutward n c r (k + 1)). k \<le> \<bar>i - c\<bar>"
      using 1(2) by (simp add: expandOutward_mem)
    have near: "\<bar>c - k - c\<bar> = k" "\<bar>c + k - c\<bar> = k" using 1(2) by simp_all
    show ?thesis
      using ih far near by (auto simp add: expandOutward_step [OF True] sorted_append)
  next
    case False
    then show ?thesis by (simp add: expandOutward_stop)
  qed
qed

lemma expandOutward_distinct:
  "1 \<le> k \<Longrightarrow> distinct (expandOutward n c r k)"
proof (induction n c r k rule: expandOutward.induct)
  case (1 n c r k)
  show ?case
  proof (cases "k \<le> r")
    case True
    with 1 have ih: "distinct (expandOutward n c r (k + 1))" by simp
    have a: "c - k \<notin> set (expandOutward n c r (k + 1))"
      using 1(2) by (simp add: expandOutward_mem)
    have b: "c + k \<notin> set (expandOutward n c r (k + 1))"
      using 1(2) by (simp add: expandOutward_mem)
    have ne: "c - k \<noteq> c + k" using 1(2) by simp
    show ?thesis
      using ih a b ne by (auto simp add: expandOutward_step [OF True])
  next
    case False
    then show ?thesis by (simp add: expandOutward_stop)
  qed
qed

lemma expandOutward_tie:
  "1 \<le> k \<Longrightarrow> k \<le> d \<Longrightarrow> d \<le> r \<Longrightarrow> 0 \<le> c - d \<Longrightarrow> c + d < int n \<Longrightarrow>
   \<exists>xs ys. expandOutward n c r k = xs @ [c - d, c + d] @ ys"
proof (induction n c r k rule: expandOutward.induct)
  case (1 n c r k)
  from 1(3,4) have kr: "k \<le> r" by simp
  note unfold = expandOutward_step [OF kr, of n c]
  show ?case
  proof (cases "k = d")
    case True
    with 1(2,5,6) have "0 \<le> c - k \<and> c - k < int n" "c + k < int n \<and> 0 \<le> c + k" by simp_all
    with unfold True have "expandOutward n c r k = [] @ [c - d, c + d] @ expandOutward n c r (k + 1)"
      by simp
    then show ?thesis by blast
  next
    case False
    with 1(3) have "k + 1 \<le> d" by simp
    moreover from 1(2) have "1 \<le> k + 1" by simp
    ultimately obtain xs ys where
      "expandOutward n c r (k + 1) = xs @ [c - d, c + d] @ ys"
      using 1(1) [OF kr refl refl] 1(4,5,6) by blast
    with unfold have "expandOutward n c r k
        = ((if 0 \<le> c - k \<and> c - k < int n then [c - k] else [])
          @ (if c + k < int n \<and> 0 \<le> c + k then [c + k] else []) @ xs) @ [c - d, c + d] @ ys"
      by simp
    then show ?thesis by blast
  qed
qed
text \<open>
  C6, as the code has it, for the priority order of useFastAlbumCovers and a centre inside
  the list. The order begins with the centre; the distance from the centre never goes down
  along the order; the order holds every index of the list within \<open>preloadRadius\<close> of the
  centre, once (songs farther away are left to the background effect, which takes them in
  list order); and where the songs at distance \<open>d\<close> on both sides are in the list, the one
  before the centre, with the smaller index, comes right before the one after it.
\<close>

theorem priorityOrder_plan:
  "0 \<le> c \<and> c < int n \<longrightarrow>
     priorityOrder n c r \<noteq> [] \<and> hd (priorityOrder n c r) = c
     \<and> sorted (map (\<lambda>i. \<bar>i - c\<bar>) (priorityOrder n c r))
     \<and> distinct (priorityOrder n c r)
     \<and> set (priorityOrder n c r) = {i. 0 \<le> i \<and> i < int n \<and> (i = c \<or> \<bar>i - c\<bar> \<le> r)}
     \<and> (1 \<le> d \<and> d \<le> r \<and> 0 \<le> c - d \<and> c + d < int n \<longrightarrow>
          (\<exists>xs ys. priorityOrder n c r = xs @ [c - d, c + d] @ ys))"
proof (intro impI)
  assume "0 \<le> c \<and> c < int n"
  then have c: "0 \<le> c" "c < int n" by simp_all
  then have p: "priorityOrder n c r = c # expandOutward n c r 1"
    by (auto simp: priorityOrder_def)
  have m: "\<And>i. i \<in> set (expandOutward n c r 1) \<longleftrightarrow> 0 \<le> i \<and> i < int n \<and> 1 \<le> \<bar>i - c\<bar> \<and> \<bar>i - c\<bar> \<le> r"
    by (rule expandOutward_mem) simp
  have "sorted (map (\<lambda>i. \<bar>i - c\<bar>) (priorityOrder n c r))"
    using expandOutward_sorted [of 1 c n r] by (simp add: p)
  moreover have "distinct (priorityOrder n c r)"
    using expandOutward_distinct [of 1 n c r] by (simp add: p m)
  moreover have "set (priorityOrder n c r) = {i. 0 \<le> i \<and> i < int n \<and> (i = c \<or> \<bar>i - c\<bar> \<le> r)}"
  proof (rule set_eqI)
    fix i
    show "i \<in> set (priorityOrder n c r) \<longleftrightarrow> i \<in> {i. 0 \<le> i \<and> i < int n \<and> (i = c \<or> \<bar>i - c\<bar> \<le> r)}"
      using c by (simp add: p m) arith
  qed
  moreover have "1 \<le> d \<and> d \<le> r \<and> 0 \<le> c - d \<and> c + d < int n \<longrightarrow>
          (\<exists>xs ys. priorityOrder n c r = xs @ [c - d, c + d] @ ys)"
  proof
    assume "1 \<le> d \<and> d \<le> r \<and> 0 \<le> c - d \<and> c + d < int n"
    then have "\<exists>xs ys. expandOutward n c r 1 = xs @ [c - d, c + d] @ ys"
      by (intro expandOutward_tie) simp_all
    then obtain xs ys where "expandOutward n c r 1 = xs @ [c - d, c + d] @ ys" by blast
    then have "priorityOrder n c r = (c # xs) @ [c - d, c + d] @ ys" by (simp add: p)
    then show "\<exists>xs ys. priorityOrder n c r = xs @ [c - d, c + d] @ ys" by blast
  qed
  ultimately show "priorityOrder n c r \<noteq> [] \<and> hd (priorityOrder n c r) = c
     \<and> sorted (map (\<lambda>i. \<bar>i - c\<bar>) (priorityOrder n c r))
     \<and> distinct (priorityOrder n c r)
     \<and> set (priorityOrder n c r) = {i. 0 \<le> i \<and> i < int n \<and> (i = c \<or> \<bar>i - c\<bar> \<le> r)}
     \<and> (1 \<le> d \<and> d \<le> r \<and> 0 \<le> c - d \<and> c + d < int n \<longrightarrow>
          (\<exists>xs ys. priorityOrder n c r = xs @ [c - d, c + d] @ ys))"
    by (simp add: p)
qed

theorem priorityOrder_plan_witness:
  "(0::int) \<le> 5 \<and> (5::int) < int 10
   \<and> priorityOrder 10 5 2 = [5, 4, 6, 3, 7]
   \<and> hd (priorityOrder 10 5 2) = 5
   \<and> sorted (map (\<lambda>i. \<bar>i - 5\<bar>) (priorityOrder 10 5 2))
   \<and> distinct (priorityOrder 10 5 2)
   \<and> (\<exists>xs ys. priorityOrder 10 5 2 = xs @ [4, 6] @ ys)"
proof -
  have v: "priorityOrder 10 5 2 = [5, 4, 6, 3, 7]" by code_simp
  have h: "(0::int) \<le> 5 \<and> (5::int) < int 10" by simp
  from h priorityOrder_plan [of 5 10 2 1]
  have "hd (priorityOrder 10 5 2) = 5
     \<and> sorted (map (\<lambda>i. \<bar>i - 5\<bar>) (priorityOrder 10 5 2))
     \<and> distinct (priorityOrder 10 5 2)
     \<and> (\<exists>xs ys. priorityOrder 10 5 2 = xs @ [4, 6] @ ys)"
    by simp
  with v h show ?thesis by simp
qed

text \<open>
  C6 as the specification states it fails. With ten songs and the centre at 5, index 4
  comes before index 6 at the same distance: the smaller index wins the tie, not the larger
  one. The order of useLazyAlbumCovers goes through its window from the lowest index up
  and does not begin with the centre.
\<close>

theorem priorityOrder_counterexample:
  "priorityOrder 10 5 1 = [5, 4, 6] \<and> lazyOrder 10 5 1 2 (\<lambda>i. False) = [4, 5, 6, 3, 7]"
  by code_simp

section \<open>The progress of useFastAlbumCovers\<close>

lemma fcard_fset_of_list_le: "fcard (fset_of_list xs) \<le> length xs"
  by (simp add: fcard.rep_eq fset_of_list.rep_eq card_length)

lemma fcard_fset_of_list_distinct: "distinct xs \<Longrightarrow> fcard (fset_of_list xs) = length xs"
  by (simp add: fcard.rep_eq fset_of_list.rep_eq distinct_card)

lemma fastStep_attempted_mono: "attemptedLoads h |\<subseteq>| attemptedLoads (fastStep lc h e)"
  by (cases e) (auto simp: loadCover_start_def loadCover_settle_def Let_def)

lemma fastStep_attempted_keys:
  assumes "attemptedLoads h |\<subseteq>| fset_of_list (map (getCacheKey lc) songs)"
    and "eventSong e \<in> set songs"
  shows "attemptedLoads (fastStep lc h e) |\<subseteq>| fset_of_list (map (getCacheKey lc) songs)"
  using assms
  by (cases e) (auto simp: loadCover_start_def loadCover_settle_def Let_def fset_of_list_elem)

lemma fastRun_snoc: "fastRun lc (events @ [e]) = fastStep lc (fastRun lc events) e"
  by (simp add: fastRun_def)

lemma fastRun_attempted_keys:
  "\<forall>e\<in>set events. eventSong e \<in> set songs \<Longrightarrow>
   attemptedLoads (fastRun lc events) |\<subseteq>| fset_of_list (map (getCacheKey lc) songs)"
proof (induction events rule: rev_induct)
  case Nil
  then show ?case by (simp add: fastRun_def emptyFast_def)
next
  case (snoc e events)
  then have "attemptedLoads (fastRun lc events) |\<subseteq>| fset_of_list (map (getCacheKey lc) songs)"
    and "eventSong e \<in> set songs" by simp_all
  then show ?case unfolding fastRun_snoc by (rule fastStep_attempted_keys)
qed

lemma loadingProgress_mono:
  assumes "attemptedLoads h |\<subseteq>| attemptedLoads h'"
  shows "loadingProgress h songs \<le> loadingProgress h' songs"
proof -
  from assms have "fcard (attemptedLoads h) \<le> fcard (attemptedLoads h')" by (rule fcard_mono)
  then show ?thesis
    by (simp add: loadingProgress_def divide_right_mono)
qed

lemma loadingProgress_range:
  assumes "attemptedLoads h |\<subseteq>| fset_of_list (map (getCacheKey lc) songs)"
  shows "0 \<le> loadingProgress h songs \<and> loadingProgress h songs \<le> 100"
proof -
  from assms have "fcard (attemptedLoads h) \<le> fcard (fset_of_list (map (getCacheKey lc) songs))"
    by (rule fcard_mono)
  also have "\<dots> \<le> length (map (getCacheKey lc) songs)" by (rule fcard_fset_of_list_le)
  finally have "fcard (attemptedLoads h) \<le> length songs" by simp
  then show ?thesis
    by (simp add: loadingProgress_def divide_le_eq)
qed

lemma loadingProgress_complete:
  assumes sub: "attemptedLoads h |\<subseteq>| fset_of_list (map (getCacheKey lc) songs)"
    and all: "\<forall>s\<in>set songs. getCacheKey lc s |\<in>| attemptedLoads h"
    and d: "distinct (map (getCacheKey lc) songs)" and ne: "songs \<noteq> []"
  shows "loadingProgress h songs = 100"
proof -
  from all have "fset_of_list (map (getCacheKey lc) songs) |\<subseteq>| attemptedLoads h"
    by (auto simp: fset_of_list_elem)
  with sub have "attemptedLoads h = fset_of_list (map (getCacheKey lc) songs)" by simp
  then have "fcard (attemptedLoads h) = length songs"
    using fcard_fset_of_list_distinct [OF d] by simp
  with ne show ?thesis by (simp add: loadingProgress_def)
qed


lemma fastRun_attempted_grows:
  "attemptedLoads (fastRun lc events) |\<subseteq>| attemptedLoads (fastRun lc (events @ later))"
proof (induction later rule: rev_induct)
  case Nil
  then show ?case by simp
next
  case (snoc e later)
  have "attemptedLoads (fastRun lc (events @ later))
      |\<subseteq>| attemptedLoads (fastStep lc (fastRun lc (events @ later)) e)"
    by (rule fastStep_attempted_mono)
  with snoc show ?case
    unfolding append_assoc [symmetric] fastRun_snoc by (rule order_trans)
qed

text \<open>
  C9 at a failing input. Two songs with the same artist and title and different ids have
  one cache key. Both are attempted, no cover is found, and the progress is 50: the
  attempts are counted by key and the total by song. The comment above
  \<open>loadingProgress\<close> says that the progress reaches 100 even if some covers fail.
\<close>

theorem loadingProgress_stuck:
  "getCacheKey asciiLower (mkSong (js ''1'') (js ''Taylor Swift'') (js ''Anti-Hero''))
       |\<in>| attemptedLoads (fastRun asciiLower
        [LoadStarts emptyFast (mkSong (js ''1'') (js ''Taylor Swift'') (js ''Anti-Hero'')),
         LoadSettles (mkSong (js ''1'') (js ''Taylor Swift'') (js ''Anti-Hero'')) None,
         LoadStarts emptyFast (mkSong (js ''2'') (js ''Taylor Swift'') (js ''Anti-Hero'')),
         LoadSettles (mkSong (js ''2'') (js ''Taylor Swift'') (js ''Anti-Hero'')) None])
   \<and> getCacheKey asciiLower (mkSong (js ''2'') (js ''Taylor Swift'') (js ''Anti-Hero''))
       |\<in>| attemptedLoads (fastRun asciiLower
        [LoadStarts emptyFast (mkSong (js ''1'') (js ''Taylor Swift'') (js ''Anti-Hero'')),
         LoadSettles (mkSong (js ''1'') (js ''Taylor Swift'') (js ''Anti-Hero'')) None,
         LoadStarts emptyFast (mkSong (js ''2'') (js ''Taylor Swift'') (js ''Anti-Hero'')),
         LoadSettles (mkSong (js ''2'') (js ''Taylor Swift'') (js ''Anti-Hero'')) None])
   \<and> loadingProgress (fastRun asciiLower
        [LoadStarts emptyFast (mkSong (js ''1'') (js ''Taylor Swift'') (js ''Anti-Hero'')),
         LoadSettles (mkSong (js ''1'') (js ''Taylor Swift'') (js ''Anti-Hero'')) None,
         LoadStarts emptyFast (mkSong (js ''2'') (js ''Taylor Swift'') (js ''Anti-Hero'')),
         LoadSettles (mkSong (js ''2'') (js ''Taylor Swift'') (js ''Anti-Hero'')) None])
      [mkSong (js ''1'') (js ''Taylor Swift'') (js ''Anti-Hero''),
       mkSong (js ''2'') (js ''Taylor Swift'') (js ''Anti-Hero'')] = 50"
  by code_simp

text \<open>
  The progress of these two songs stays at or below 50 however the hook runs on: for every
  list the progress is bounded by the number of different cache keys.
\<close>

lemma loadingProgress_le_keys:
  assumes "\<forall>e\<in>set events. eventSong e \<in> set songs"
  shows "loadingProgress (fastRun lc events) songs
    \<le> real (fcard (fset_of_list (map (getCacheKey lc) songs))) / real (length songs) * 100"
proof -
  from fastRun_attempted_keys [OF assms, of lc]
  have "fcard (attemptedLoads (fastRun lc events))
      \<le> fcard (fset_of_list (map (getCacheKey lc) songs))" by (rule fcard_mono)
  then show ?thesis
    by (simp add: loadingProgress_def divide_right_mono)
qed

lemma loadingProgress_shared_key:
  assumes "\<forall>e\<in>set events. eventSong e \<in>
      set [mkSong (js ''1'') (js ''Taylor Swift'') (js ''Anti-Hero''),
           mkSong (js ''2'') (js ''Taylor Swift'') (js ''Anti-Hero'')]"
  shows "loadingProgress (fastRun asciiLower events)
      [mkSong (js ''1'') (js ''Taylor Swift'') (js ''Anti-Hero''),
       mkSong (js ''2'') (js ''Taylor Swift'') (js ''Anti-Hero'')] \<le> 50"
proof -
  have one: "fcard (fset_of_list (map (getCacheKey asciiLower)
      [mkSong (js ''1'') (js ''Taylor Swift'') (js ''Anti-Hero''),
       mkSong (js ''2'') (js ''Taylor Swift'') (js ''Anti-Hero'')])) = 1"
    by code_simp
  from loadingProgress_le_keys [OF assms, of asciiLower] show ?thesis
    unfolding one by simp
qed

text \<open>
  What holds of \<open>loadingProgress\<close> for a fixed list of songs. Every attempt that has come
  to its end counts, with a cover or without one. The progress lies between 0 and 100 and
  never goes down as the hook runs on. It is 0 for the empty list, by the test on
  \<open>totalSongs\<close>, and it is 100 once every song has been attempted, when the list is not
  empty and no two songs have the same cache key.
\<close>

lemma loadingProgress_monotone:
  "(\<forall>e\<in>set events. eventSong e \<in> set songs) \<longrightarrow>
     0 \<le> loadingProgress (fastRun lc events) songs
     \<and> loadingProgress (fastRun lc events) songs \<le> 100
     \<and> loadingProgress (fastRun lc events) songs \<le> loadingProgress (fastRun lc (events @ later)) songs
     \<and> getCacheKey lc s |\<in>| attemptedLoads (loadCover_settle lc h s cover)
     \<and> loadingProgress h [] = 0
     \<and> (songs \<noteq> [] \<and> distinct (map (getCacheKey lc) songs)
         \<and> (\<forall>s\<in>set songs. getCacheKey lc s |\<in>| attemptedLoads (fastRun lc events))
         \<longrightarrow> loadingProgress (fastRun lc events) songs = 100)"
proof (intro impI conjI)
  assume a: "\<forall>e\<in>set events. eventSong e \<in> set songs"
  note keys = fastRun_attempted_keys [OF a, of lc]
  from loadingProgress_range [OF keys]
  show "0 \<le> loadingProgress (fastRun lc events) songs"
    and "loadingProgress (fastRun lc events) songs \<le> 100" by simp_all
  show "loadingProgress (fastRun lc events) songs \<le> loadingProgress (fastRun lc (events @ later)) songs"
    by (rule loadingProgress_mono) (rule fastRun_attempted_grows)
  show "getCacheKey lc s |\<in>| attemptedLoads (loadCover_settle lc h s cover)"
    by (simp add: loadCover_settle_def Let_def)
  show "loadingProgress h [] = 0"
    by (simp add: loadingProgress_def)
  assume "songs \<noteq> [] \<and> distinct (map (getCacheKey lc) songs)
         \<and> (\<forall>s\<in>set songs. getCacheKey lc s |\<in>| attemptedLoads (fastRun lc events))"
  then show "loadingProgress (fastRun lc events) songs = 100"
    using loadingProgress_complete [OF keys] by blast
qed

section \<open>The cache of the lookup service\<close>

lemma searchTrack_settle_keeps:
  "coverCache this k \<noteq> None \<Longrightarrow> coverCache (fst (searchTrack_settle lc this a t outcome)) k \<noteq> None"
  by (auto simp: searchTrack_settle_def Let_def split: fetch_outcome.splits option.splits)

lemma settleMany_keeps:
  "coverCache this k \<noteq> None \<Longrightarrow> coverCache (settleMany lc this others) k \<noteq> None"
proof (induction others arbitrary: this)
  case Nil
  then show ?case by simp
next
  case (Cons x others)
  obtain a t outcome where x: "x = (a, t, outcome)" by (cases x)
  from Cons.prems have "coverCache (fst (searchTrack_settle lc this a t outcome)) k \<noteq> None"
    by (rule searchTrack_settle_keeps)
  from Cons.IH [OF this] show ?case by (simp add: x)
qed

lemma searchTrack_start_cached:
  "coverCache this (cacheKey lc a t) = Some v \<Longrightarrow> searchTrack_start lc this a t = Returned v"
  by (simp add: searchTrack_start_def)

lemma searchTrack_start_missing:
  "coverCache this (cacheKey lc a t) = None \<Longrightarrow>
   searchTrack_start lc this a t
     = Fetching \<lparr>searchTerm = cleanSearchTerm lc a @ js '' '' @ cleanSearchTerm lc t, limit = 5\<rparr>"
  by (simp add: searchTrack_start_def)

lemma searchTrack_settle_None:
  "searchTrack_settle lc this a t outcome = (this', None) \<Longrightarrow> this' = this"
  by (auto simp: searchTrack_settle_def Let_def split: fetch_outcome.splits option.splits if_splits)

lemma searchTrack_settle_caches:
  assumes "searchTrack_settle lc this a t outcome = (this', Some ref)"
  shows "coverCache this' (cacheKey lc a t) = Some ref"
  using assms
  by (auto simp: searchTrack_settle_def Let_def split: fetch_outcome.splits option.splits if_splits)

text \<open>
  C2, as the code has it. Once \<open>searchTrack\<close> has found an artwork for a key, every later
  call for the key returns a cached reference at once and issues no request, whatever
  other calls have come back in between, until \<open>clearCache\<close>; after \<open>clearCache\<close> a call
  issues a request again. A lookup that found nothing leaves the cache of the service as
  it was. The hook useFastAlbumCovers marks the key as attempted after either outcome, and
  a \<open>loadCover\<close> that sees the mark does not call the service.
\<close>

theorem searchTrack_cache:
  "(searchTrack_settle lc this a t outcome = (this', Some ref) \<longrightarrow>
      searchTrack_start lc this' a t = Returned ref
      \<and> searchTrack lc net \<lparr>service = this', fetchLog = issued\<rparr> a t
           = (\<lparr>service = this', fetchLog = issued\<rparr>, Some ref)
      \<and> (\<exists>cached. searchTrack_start lc (settleMany lc this' others) a t = Returned cached))
   \<and> (searchTrack_settle lc this a t outcome = (this', None) \<longrightarrow> this' = this)
   \<and> (searchTrack_start lc this a t = Fetching req
       \<and> searchTrack_settle lc this a t outcome = (this', None) \<longrightarrow>
      searchTrack_start lc this' a t = Fetching req)
   \<and> (\<exists>req. searchTrack_start lc (clearCache this) a t = Fetching req)
   \<and> getCacheKey lc song |\<in>| attemptedLoads (loadCover_settle lc h song cover)
   \<and> (getCacheKey lc song |\<in>| attemptedLoads snap \<longrightarrow> loadCover_start lc snap h song = (h, False))"
proof (intro conjI impI)
  assume s: "searchTrack_settle lc this a t outcome = (this', Some ref)"
  note c = searchTrack_settle_caches [OF s]
  from c show r: "searchTrack_start lc this' a t = Returned ref"
    by (rule searchTrack_start_cached)
  then show "searchTrack lc net \<lparr>service = this', fetchLog = issued\<rparr> a t
           = (\<lparr>service = this', fetchLog = issued\<rparr>, Some ref)"
    by (simp add: searchTrack_def)
  from c have "coverCache this' (cacheKey lc a t) \<noteq> None" by simp
  from settleMany_keeps [OF this, of lc others]
  obtain cached where "coverCache (settleMany lc this' others) (cacheKey lc a t) = Some cached"
    by blast
  then have "searchTrack_start lc (settleMany lc this' others) a t = Returned cached"
    by (rule searchTrack_start_cached)
  then show "\<exists>cached. searchTrack_start lc (settleMany lc this' others) a t = Returned cached" ..
next
  assume "searchTrack_settle lc this a t outcome = (this', None)"
  then show "this' = this" by (rule searchTrack_settle_None)
next
  assume "searchTrack_start lc this a t = Fetching req
       \<and> searchTrack_settle lc this a t outcome = (this', None)"
  then have f: "searchTrack_start lc this a t = Fetching req"
    and n: "searchTrack_settle lc this a t outcome = (this', None)" by simp_all
  from n have "this' = this" by (rule searchTrack_settle_None)
  with f show "searchTrack_start lc this' a t = Fetching req" by simp
next
  show "\<exists>req. searchTrack_start lc (clearCache this) a t = Fetching req"
    by (simp add: searchTrack_start_def clearCache_def)
next
  show "getCacheKey lc song |\<in>| attemptedLoads (loadCover_settle lc h song cover)"
    by (simp add: loadCover_settle_def Let_def)
next
  assume "getCacheKey lc song |\<in>| attemptedLoads snap"
  then show "loadCover_start lc snap h song = (h, False)"
    by (simp add: loadCover_start_def Let_def)
qed

theorem searchTrack_cache_witness:
  "snd (searchTrack_settle asciiLower emptyService (js ''Taylor Swift'') (js ''Anti-Hero'')
          (Body \<lparr>results = [mkTrack (js ''Taylor Swift'') (js ''Anti-Hero'')
                                (js ''https://a.example/100x100bb.jpg'')],
                 resultCount = 1\<rparr>))
     = Some (js ''https://a.example/600x600bb.jpg'')
   \<and> searchTrack_start asciiLower
       (fst (searchTrack_settle asciiLower emptyService (js ''Taylor Swift'') (js ''Anti-Hero'')
          (Body \<lparr>results = [mkTrack (js ''Taylor Swift'') (js ''Anti-Hero'')
                                (js ''https://a.example/100x100bb.jpg'')],
                 resultCount = 1\<rparr>)))
       (js ''Taylor Swift'') (js ''Anti-Hero'')
     = Returned (js ''https://a.example/600x600bb.jpg'')
   \<and> searchTrack_settle asciiLower emptyService (js ''Queen'') (js ''Bohemian Rhapsody'') NetworkError
     = (emptyService, None)
   \<and> searchTrack_start asciiLower emptyService (js ''Queen'') (js ''Bohemian Rhapsody'')
     = Fetching \<lparr>searchTerm = js ''queen bohemian rhapsody'', limit = 5\<rparr>
   \<and> searchTrack_start asciiLower
       (fst (searchTrack_settle asciiLower emptyService (js ''Queen'') (js ''Bohemian Rhapsody'')
               NetworkError))
       (js ''Queen'') (js ''Bohemian Rhapsody'')
     = Fetching \<lparr>searchTerm = js ''queen bohemian rhapsody'', limit = 5\<rparr>
   \<and> getCacheKey asciiLower (mkSong (js ''1'') (js ''Queen'') (js ''Bohemian Rhapsody''))
       |\<in>| attemptedLoads (loadCover_settle asciiLower emptyFast
                (mkSong (js ''1'') (js ''Queen'') (js ''Bohemian Rhapsody'')) None)
   \<and> loadCover_start asciiLower
       (loadCover_settle asciiLower emptyFast
          (mkSong (js ''1'') (js ''Queen'') (js ''Bohemian Rhapsody'')) None)
       emptyFast (mkSong (js ''1'') (js ''Queen'') (js ''Bohemian Rhapsody''))
     = (emptyFast, False)"
proof -
  let ?body = "Body \<lparr>results = [mkTrack (js ''Taylor Swift'') (js ''Anti-Hero'')
                                (js ''https://a.example/100x100bb.jpg'')],
                 resultCount = 1\<rparr>"
  let ?q = "mkSong (js ''1'') (js ''Queen'') (js ''Bohemian Rhapsody'')"
  have found: "snd (searchTrack_settle asciiLower emptyService (js ''Taylor Swift'')
      (js ''Anti-Hero'') ?body) = Some (js ''https://a.example/600x600bb.jpg'')"
    by code_simp
  then have hit: "searchTrack_settle asciiLower emptyService (js ''Taylor Swift'') (js ''Anti-Hero'') ?body
      = (fst (searchTrack_settle asciiLower emptyService (js ''Taylor Swift'') (js ''Anti-Hero'') ?body),
         Some (js ''https://a.example/600x600bb.jpg''))"
    by (metis prod.collapse)
  have miss: "searchTrack_settle asciiLower emptyService (js ''Queen'') (js ''Bohemian Rhapsody'')
      NetworkError = (emptyService, None)"
    by (simp add: searchTrack_settle_def)
  from hit searchTrack_cache [where lc = asciiLower and this = emptyService
      and a = "js ''Taylor Swift''" and t = "js ''Anti-Hero''" and outcome = ?body
      and this' = "fst (searchTrack_settle asciiLower emptyService (js ''Taylor Swift'')
                     (js ''Anti-Hero'') ?body)"
      and ref = "js ''https://a.example/600x600bb.jpg''"]
  have a: "searchTrack_start asciiLower
       (fst (searchTrack_settle asciiLower emptyService (js ''Taylor Swift'') (js ''Anti-Hero'') ?body))
       (js ''Taylor Swift'') (js ''Anti-Hero'') = Returned (js ''https://a.example/600x600bb.jpg'')"
    by blast
  have again: "searchTrack_start asciiLower emptyService (js ''Queen'') (js ''Bohemian Rhapsody'')
      = Fetching \<lparr>searchTerm = js ''queen bohemian rhapsody'', limit = 5\<rparr>"
    by code_simp
  from again miss searchTrack_cache [where lc = asciiLower and this = emptyService
      and a = "js ''Queen''" and t = "js ''Bohemian Rhapsody''" and outcome = NetworkError
      and this' = emptyService
      and req = "\<lparr>searchTerm = js ''queen bohemian rhapsody'', limit = 5\<rparr>"]
  have retry: "searchTrack_start asciiLower
       (fst (searchTrack_settle asciiLower emptyService (js ''Queen'') (js ''Bohemian Rhapsody'')
               NetworkError))
       (js ''Queen'') (js ''Bohemian Rhapsody'')
     = Fetching \<lparr>searchTerm = js ''queen bohemian rhapsody'', limit = 5\<rparr>"
    by simp
  note hook = searchTrack_cache [where lc = asciiLower and song = ?q and h = emptyFast
      and cover = None and snap = "loadCover_settle asciiLower emptyFast ?q None"]
  from hook have b: "getCacheKey asciiLower ?q
      |\<in>| attemptedLoads (loadCover_settle asciiLower emptyFast ?q None)" by blast
  with hook have c: "loadCover_start asciiLower (loadCover_settle asciiLower emptyFast ?q None)
      emptyFast ?q = (emptyFast, False)" by blast
  from found a miss again retry b c show ?thesis by simp
qed

text \<open>
  C2 as the specification states it fails for a lookup that found nothing: the request of
  the first call fails, the call returns null, and the next call for the same key issues
  a second request.
\<close>

theorem searchTrack_cache_counterexample:
  "returned (settleSearchTrack asciiLower
                (callSearchTrack asciiLower emptyRun (js ''Taylor Swift'') (js ''Anti-Hero''))
                0 NetworkError) = [None]
   \<and> pending (settleSearchTrack asciiLower
                (callSearchTrack asciiLower emptyRun (js ''Taylor Swift'') (js ''Anti-Hero''))
                0 NetworkError) = []
   \<and> length (fetchLog (world (callSearchTrack asciiLower
             (settleSearchTrack asciiLower
                (callSearchTrack asciiLower emptyRun (js ''Taylor Swift'') (js ''Anti-Hero''))
                0 NetworkError)
             (js ''Taylor Swift'') (js ''Anti-Hero'')))) = 2"
  by code_simp

section \<open>The request queue\<close>

lemma queueInv_init: "queueInv audioInit"
  by (simp add: queueInv_def audioInit_def)

lemma queueInv_queued:
  assumes "queueInv run" "requestQueue (audioService run) k = Some p"
  shows "p < length (lookups run)" "lookupKey (lookups run ! p) = k" "\<not> resumed (lookups run ! p)"
proof -
  from assms(1) have "\<forall>k p. requestQueue (audioService run) k = Some p \<longrightarrow>
        p < length (lookups run) \<and> lookupKey (lookups run ! p) = k \<and> \<not> resumed (lookups run ! p)"
    unfolding queueInv_def by (rule conjunct1)
  with assms(2) show "p < length (lookups run)" "lookupKey (lookups run ! p) = k"
    "\<not> resumed (lookups run ! p)" by blast+
qed

lemma queueInv_unresumed:
  assumes "queueInv run" "p < length (lookups run)" "\<not> resumed (lookups run ! p)"
  shows "requestQueue (audioService run) (lookupKey (lookups run ! p)) = Some p"
proof -
  from assms(1) have "\<forall>p < length (lookups run). \<not> resumed (lookups run ! p) \<longrightarrow>
        requestQueue (audioService run) (lookupKey (lookups run ! p)) = Some p"
    unfolding queueInv_def by (rule conjunct2 [THEN conjunct1])
  with assms(2,3) show ?thesis by blast
qed

lemma queueInv_resumed:
  assumes "queueInv run" "p < length (lookups run)" "resumed (lookups run ! p)"
  shows "settled (lookups run ! p) \<noteq> None"
proof -
  from assms(1) have "\<forall>p < length (lookups run). resumed (lookups run ! p) \<longrightarrow>
        settled (lookups run ! p) \<noteq> None"
    unfolding queueInv_def by (rule conjunct2 [THEN conjunct2])
  with assms(2,3) show ?thesis by blast
qed

lemma queueInv_call:
  assumes inv: "queueInv run"
  shows "queueInv (fst (getAlbumCover_call run songTitle artistNm))"
proof -
  let ?k = "artistNm @ js ''-'' @ songTitle"
  show ?thesis
  proof (cases "cache (audioService run) ?k = None \<and> requestQueue (audioService run) ?k = None")
    case False
    then have "fst (getAlbumCover_call run songTitle artistNm) = run"
      by (auto simp: getAlbumCover_call_def Let_def split: option.splits)
    with inv show ?thesis by simp
  next
    case True
    let ?p = "length (lookups run)"
    let ?new = "\<lparr>lookupKey = ?k, settled = None, resumed = False\<rparr>"
    let ?rq = "requestQueue (audioService run)"
    let ?run' = "\<lparr>audioService = (audioService run)\<lparr>requestQueue := ?rq(?k \<mapsto> ?p)\<rparr>,
                  lookups = lookups run @ [?new]\<rparr>"
    from True have e: "fst (getAlbumCover_call run songTitle artistNm) = ?run'"
      by (simp add: getAlbumCover_call_def Let_def)
    have L: "lookups ?run' = lookups run @ [?new]" by simp
    have Q: "requestQueue (audioService ?run') = ?rq(?k \<mapsto> ?p)" by simp
    have old: "(lookups run @ [?new]) ! p = lookups run ! p" if "p < length (lookups run)" for p
      using that by (simp add: nth_append)
    have last: "(lookups run @ [?new]) ! ?p = ?new" by simp
    have "queueInv ?run'"
      unfolding queueInv_def L Q
    proof (intro conjI allI impI)
      fix k p assume q: "(?rq(?k \<mapsto> ?p)) k = Some p"
      show "p < length (lookups run @ [?new])"
      proof (cases "k = ?k")
        case True with q show ?thesis by simp
      next
        case False
        with q have "?rq k = Some p" by simp
        from queueInv_queued(1) [OF inv this] show ?thesis by simp
      qed
      show "lookupKey ((lookups run @ [?new]) ! p) = k"
      proof (cases "k = ?k")
        case True with q have "p = ?p" by simp
        with True last show ?thesis by simp
      next
        case False
        with q have r: "?rq k = Some p" by simp
        from queueInv_queued(1) [OF inv r] queueInv_queued(2) [OF inv r] old show ?thesis by simp
      qed
      show "\<not> resumed ((lookups run @ [?new]) ! p)"
      proof (cases "k = ?k")
        case True with q have "p = ?p" by simp
        with last show ?thesis by simp
      next
        case False
        with q have r: "?rq k = Some p" by simp
        from queueInv_queued(1) [OF inv r] queueInv_queued(3) [OF inv r] old show ?thesis by simp
      qed
    next
      fix p assume a: "p < length (lookups run @ [?new])" "\<not> resumed ((lookups run @ [?new]) ! p)"
      show "(?rq(?k \<mapsto> ?p)) (lookupKey ((lookups run @ [?new]) ! p)) = Some p"
      proof (cases "p < length (lookups run)")
        case True
        with a old have nr: "\<not> resumed (lookups run ! p)" by simp
        from queueInv_unresumed [OF inv True nr]
        have own: "?rq (lookupKey (lookups run ! p)) = Some p" .
        with \<open>cache (audioService run) ?k = None \<and> ?rq ?k = None\<close>
        have "lookupKey (lookups run ! p) \<noteq> ?k" by auto
        with own old [OF True] show ?thesis by simp
      next
        case False
        with a have "p = ?p" by simp
        with last show ?thesis by simp
      qed
    next
      fix p assume a: "p < length (lookups run @ [?new])" "resumed ((lookups run @ [?new]) ! p)"
      show "settled ((lookups run @ [?new]) ! p) \<noteq> None"
      proof (cases "p < length (lookups run)")
        case True
        with a old have "resumed (lookups run ! p)" by simp
        from queueInv_resumed [OF inv True this] old [OF True] show ?thesis by simp
      next
        case False
        with a have "p = ?p" by simp
        with a last show ?thesis by simp
      qed
    qed
    with e show ?thesis by simp
  qed
qed

lemma queueInv_settle:
  assumes "queueInv run"
  shows "queueInv (settleLookup run request outcome)"
  using assms
  by (auto simp: queueInv_def settleLookup_def nth_list_update)

lemma queueInv_resume:
  assumes "queueInv run"
  shows "queueInv (resumeCreator run request)"
proof (cases "request < length (lookups run) \<and> \<not> resumed (lookups run ! request)
    \<and> settled (lookups run ! request) \<noteq> None")
  case False
  then have "resumeCreator run request = run"
    by (auto simp: resumeCreator_def split: option.splits)
  with assms show ?thesis by simp
next
  case True
  then obtain outcome where o: "settled (lookups run ! request) = Some outcome" by auto
  let ?key = "lookupKey (lookups run ! request)"
  from assms True have mine: "requestQueue (audioService run) ?key = Some request"
    by (simp add: queueInv_def)
  have q: "requestQueue (audioService (resumeCreator run request))
      = (requestQueue (audioService run))(?key := None)"
    using True o by (cases outcome) (simp_all add: resumeCreator_def Let_def)
  have l: "lookups (resumeCreator run request)
      = (lookups run)[request := (lookups run ! request)\<lparr>resumed := True\<rparr>]"
    using True o by (cases outcome) (simp_all add: resumeCreator_def Let_def)
  show ?thesis
    unfolding queueInv_def q l
  proof (intro conjI allI impI)
    fix k p assume a: "((requestQueue (audioService run))(?key := None)) k = Some p"
    then have k: "k \<noteq> ?key" and old: "requestQueue (audioService run) k = Some p"
      by (auto split: if_splits)
    from assms old have p: "p < length (lookups run)" "lookupKey (lookups run ! p) = k"
      "\<not> resumed (lookups run ! p)" by (auto simp: queueInv_def)
    with k have "p \<noteq> request" by auto
    with p show "p < length ((lookups run)[request := (lookups run ! request)\<lparr>resumed := True\<rparr>])"
      "lookupKey ((lookups run)[request := (lookups run ! request)\<lparr>resumed := True\<rparr>] ! p) = k"
      "\<not> resumed ((lookups run)[request := (lookups run ! request)\<lparr>resumed := True\<rparr>] ! p)"
      by simp_all
  next
    fix p
    assume a: "p < length ((lookups run)[request := (lookups run ! request)\<lparr>resumed := True\<rparr>])"
      "\<not> resumed ((lookups run)[request := (lookups run ! request)\<lparr>resumed := True\<rparr>] ! p)"
    then have ne: "p \<noteq> request" and p: "p < length (lookups run)" "\<not> resumed (lookups run ! p)"
      using True by (auto simp: nth_list_update split: if_splits)
    from assms p have own: "requestQueue (audioService run) (lookupKey (lookups run ! p)) = Some p"
      by (simp add: queueInv_def)
    with mine ne have "lookupKey (lookups run ! p) \<noteq> ?key" by auto
    with own ne show "((requestQueue (audioService run))(?key := None))
        (lookupKey ((lookups run)[request := (lookups run ! request)\<lparr>resumed := True\<rparr>] ! p)) = Some p"
      by simp
  next
    fix p
    assume a: "p < length ((lookups run)[request := (lookups run ! request)\<lparr>resumed := True\<rparr>])"
      "resumed ((lookups run)[request := (lookups run ! request)\<lparr>resumed := True\<rparr>] ! p)"
    show "settled ((lookups run)[request := (lookups run ! request)\<lparr>resumed := True\<rparr>] ! p) \<noteq> None"
    proof (cases "p = request")
      case True
      with a o show ?thesis by simp
    next
      case False
      with a assms show ?thesis by (auto simp: queueInv_def)
    qed
  qed
qed

lemma queueInv_step:
  assumes "queueInv run"
  shows "queueInv (audioStep run e)"
proof (cases e)
  case (Call songTitle artistNm)
  from queueInv_call [OF assms] show ?thesis unfolding Call audioStep.simps .
next
  case (Settle request outcome)
  from queueInv_settle [OF assms] show ?thesis unfolding Settle audioStep.simps .
next
  case (Resume request)
  from queueInv_resume [OF assms] show ?thesis unfolding Resume audioStep.simps .
qed

lemma audioExec_snoc: "audioExec (events @ [e]) = audioStep (audioExec events) e"
  by (simp add: audioExec_def)

lemma queueInv_exec: "queueInv (audioExec events)"
proof (induction events rule: rev_induct)
  case Nil
  have "audioExec [] = audioInit" by (simp add: audioExec_def)
  with queueInv_init show ?case by simp
next
  case (snoc e events)
  from queueInv_step [OF snoc] show ?case unfolding audioExec_snoc .
qed

lemma queueInv_pending_queued:
  assumes "queueInv run" "p < length (lookups run)" "settled (lookups run ! p) = None"
  shows "requestQueue (audioService run) (lookupKey (lookups run ! p)) = Some p"
proof -
  from assms(1) have i2: "\<forall>p < length (lookups run). \<not> resumed (lookups run ! p) \<longrightarrow>
        requestQueue (audioService run) (lookupKey (lookups run ! p)) = Some p"
    and i3: "\<forall>p < length (lookups run). resumed (lookups run ! p) \<longrightarrow> settled (lookups run ! p) \<noteq> None"
    unfolding queueInv_def by blast+
  from i3 assms(2,3) have "\<not> resumed (lookups run ! p)" by blast
  with i2 assms(2) show ?thesis by blast
qed

lemma outstanding_le_1:
  assumes "queueInv run"
  shows "length (outstanding run key) \<le> 1"
proof -
  have d: "distinct (outstanding run key)" by (simp add: outstanding_def)
  have same: "p = q" if "p \<in> set (outstanding run key)" "q \<in> set (outstanding run key)" for p q
  proof -
    from that have p: "p < length (lookups run)" "lookupKey (lookups run ! p) = key"
        "settled (lookups run ! p) = None"
      and q: "q < length (lookups run)" "lookupKey (lookups run ! q) = key"
        "settled (lookups run ! q) = None"
      by (simp_all add: outstanding_def)
    from queueInv_pending_queued [OF assms p(1,3)] p(2)
    have a: "requestQueue (audioService run) key = Some p" by simp
    from queueInv_pending_queued [OF assms q(1,3)] q(2)
    have "requestQueue (audioService run) key = Some q" by simp
    with a show "p = q" by simp
  qed
  show ?thesis
  proof (cases "outstanding run key")
    case Nil
    then show ?thesis by simp
  next
    case outer: (Cons p ps)
    have "ps = []"
    proof (cases ps)
      case Nil
      then show ?thesis .
    next
      case (Cons q qs)
      with outer have "p \<in> set (outstanding run key)" "q \<in> set (outstanding run key)" by simp_all
      then have "p = q" by (rule same)
      with d outer Cons show ?thesis by simp
    qed
    with outer show ?thesis by simp
  qed
qed

lemma callMany_joined:
  assumes "cache (audioService run) (artistNm @ js ''-'' @ songTitle) = None"
    and "requestQueue (audioService run) (artistNm @ js ''-'' @ songTitle) = Some p"
  shows "callMany n run songTitle artistNm = (run, replicate n (Awaits p))"
proof (induction n)
  case 0
  then show ?case by simp
next
  case (Suc n)
  from assms have "getAlbumCover_call run songTitle artistNm = (run, Awaits p)"
    by (simp add: getAlbumCover_call_def Let_def)
  with Suc show ?case by simp
qed

lemma callMany_first:
  assumes "cache (audioService run) (artistNm @ js ''-'' @ songTitle) = None"
    and "requestQueue (audioService run) (artistNm @ js ''-'' @ songTitle) = None"
  shows "lookups (fst (callMany (Suc n) run songTitle artistNm))
           = lookups run @ [\<lparr>lookupKey = artistNm @ js ''-'' @ songTitle, settled = None, resumed = False\<rparr>]
    \<and> snd (callMany (Suc n) run songTitle artistNm) = replicate (Suc n) (Awaits (length (lookups run)))"
proof -
  let ?k = "artistNm @ js ''-'' @ songTitle"
  let ?p = "length (lookups run)"
  let ?run' = "\<lparr>audioService = (audioService run)
                     \<lparr>requestQueue := (requestQueue (audioService run))(?k \<mapsto> ?p)\<rparr>,
                lookups = lookups run @ [\<lparr>lookupKey = ?k, settled = None, resumed = False\<rparr>]\<rparr>"
  from assms have first: "getAlbumCover_call run songTitle artistNm = (?run', Awaits ?p)"
    by (simp add: getAlbumCover_call_def Let_def)
  have "callMany n ?run' songTitle artistNm = (?run', replicate n (Awaits ?p))"
    by (rule callMany_joined) (simp_all add: assms)
  with first show ?thesis by simp
qed

lemma delivered_settle:
  assumes "p < length (lookups run)" "settled (lookups run ! p) = None"
  shows "delivered (settleLookup run p outcome) (Awaits p) = Some outcome"
  using assms by (simp add: delivered_def settleLookup_def)

text \<open>
  C1, as the code has it, for \<open>getAlbumCover\<close> of the service with a request queue.
  However calls, ends of lookups and resumptions follow each other, at most one lookup per
  key is under way. When a key is neither cached nor queued and \<open>n + 1\<close> callers ask for
  it before its lookup ends, one lookup is started, by the first caller; all callers wait
  for the same promise, and when the lookup ends they all receive its outcome.
\<close>

theorem getAlbumCover_dedup:
  "length (outstanding (audioExec events) key) \<le> 1
   \<and> (cache (audioService run) (artistNm @ js ''-'' @ songTitle) = None
       \<and> requestQueue (audioService run) (artistNm @ js ''-'' @ songTitle) = None \<longrightarrow>
        lookups (fst (callMany (Suc n) run songTitle artistNm))
          = lookups run
            @ [\<lparr>lookupKey = artistNm @ js ''-'' @ songTitle, settled = None, resumed = False\<rparr>]
        \<and> snd (callMany (Suc n) run songTitle artistNm)
          = replicate (Suc n) (Awaits (length (lookups run)))
        \<and> (\<forall>h\<in>set (snd (callMany (Suc n) run songTitle artistNm)).
             delivered (settleLookup (fst (callMany (Suc n) run songTitle artistNm))
                          (length (lookups run)) outcome) h = Some outcome))"
proof (intro conjI impI)
  show "length (outstanding (audioExec events) key) \<le> 1"
    by (rule outstanding_le_1) (rule queueInv_exec)
next
  assume "cache (audioService run) (artistNm @ js ''-'' @ songTitle) = None
       \<and> requestQueue (audioService run) (artistNm @ js ''-'' @ songTitle) = None"
  then have fresh: "cache (audioService run) (artistNm @ js ''-'' @ songTitle) = None"
    "requestQueue (audioService run) (artistNm @ js ''-'' @ songTitle) = None" by simp_all
  note first = callMany_first [OF fresh, of n]
  from first show l: "lookups (fst (callMany (Suc n) run songTitle artistNm))
          = lookups run
            @ [\<lparr>lookupKey = artistNm @ js ''-'' @ songTitle, settled = None, resumed = False\<rparr>]"
    by (rule conjunct1)
  from first show h: "snd (callMany (Suc n) run songTitle artistNm)
          = replicate (Suc n) (Awaits (length (lookups run)))"
    by (rule conjunct2)
  have "delivered (settleLookup (fst (callMany (Suc n) run songTitle artistNm))
                          (length (lookups run)) outcome) (Awaits (length (lookups run))) = Some outcome"
    by (rule delivered_settle) (simp_all only: l, simp_all)
  then show "\<forall>h\<in>set (snd (callMany (Suc n) run songTitle artistNm)).
             delivered (settleLookup (fst (callMany (Suc n) run songTitle artistNm))
                          (length (lookups run)) outcome) h = Some outcome"
    unfolding h by simp
qed

theorem getAlbumCover_dedup_witness:
  "length (outstanding (audioExec [Call (js ''Anti-Hero'') (js ''Taylor Swift''),
                                   Call (js ''Anti-Hero'') (js ''Taylor Swift'')])
             (js ''Taylor Swift-Anti-Hero'')) = 1
   \<and> cache (audioService audioInit) (js ''Taylor Swift'' @ js ''-'' @ js ''Anti-Hero'') = None
   \<and> requestQueue (audioService audioInit) (js ''Taylor Swift'' @ js ''-'' @ js ''Anti-Hero'') = None
   \<and> length (lookups (fst (callMany 3 audioInit (js ''Anti-Hero'') (js ''Taylor Swift'')))) = 1
   \<and> snd (callMany 3 audioInit (js ''Anti-Hero'') (js ''Taylor Swift''))
       = [Awaits 0, Awaits 0, Awaits 0]
   \<and> delivered (settleLookup (fst (callMany 3 audioInit (js ''Anti-Hero'') (js ''Taylor Swift'')))
                  0 (Fulfilled (js ''https://a.example/600x600bb.jpg''))) (Awaits 0)
       = Some (Fulfilled (js ''https://a.example/600x600bb.jpg''))"
proof -
  have one: "length (outstanding (audioExec [Call (js ''Anti-Hero'') (js ''Taylor Swift''),
                                   Call (js ''Anti-Hero'') (js ''Taylor Swift'')])
             (js ''Taylor Swift-Anti-Hero'')) = 1"
    by code_simp
  have fresh: "cache (audioService audioInit) (js ''Taylor Swift'' @ js ''-'' @ js ''Anti-Hero'') = None
      \<and> requestQueue (audioService audioInit) (js ''Taylor Swift'' @ js ''-'' @ js ''Anti-Hero'') = None"
    by (simp add: audioInit_def)
  have three: "(3::nat) = Suc 2" by simp
  from fresh getAlbumCover_dedup [of "[]" "[]" audioInit "js ''Taylor Swift''" "js ''Anti-Hero''" 2
      "Fulfilled (js ''https://a.example/600x600bb.jpg'')"]
  have "lookups (fst (callMany (Suc 2) audioInit (js ''Anti-Hero'') (js ''Taylor Swift'')))
          = lookups audioInit
            @ [\<lparr>lookupKey = js ''Taylor Swift'' @ js ''-'' @ js ''Anti-Hero'', settled = None,
                resumed = False\<rparr>]
        \<and> snd (callMany (Suc 2) audioInit (js ''Anti-Hero'') (js ''Taylor Swift''))
          = replicate (Suc 2) (Awaits (length (lookups audioInit)))
        \<and> (\<forall>h\<in>set (snd (callMany (Suc 2) audioInit (js ''Anti-Hero'') (js ''Taylor Swift''))).
             delivered (settleLookup (fst (callMany (Suc 2) audioInit (js ''Anti-Hero'') (js ''Taylor Swift'')))
                          (length (lookups audioInit)) (Fulfilled (js ''https://a.example/600x600bb.jpg''))) h
               = Some (Fulfilled (js ''https://a.example/600x600bb.jpg'')))"
    by blast
  then have "length (lookups (fst (callMany 3 audioInit (js ''Anti-Hero'') (js ''Taylor Swift'')))) = 1
    \<and> snd (callMany 3 audioInit (js ''Anti-Hero'') (js ''Taylor Swift''))
       = [Awaits 0, Awaits 0, Awaits 0]
    \<and> delivered (settleLookup (fst (callMany 3 audioInit (js ''Anti-Hero'') (js ''Taylor Swift'')))
                  0 (Fulfilled (js ''https://a.example/600x600bb.jpg''))) (Awaits 0)
       = Some (Fulfilled (js ''https://a.example/600x600bb.jpg''))"
    unfolding three by (simp add: audioInit_def numeral_2_eq_2)
  with one fresh show ?thesis by simp
qed

text \<open>
  C1 as the specification states it fails for \<open>searchTrack\<close>, which has a cache and no
  request queue: two calls for the same song before the first request has come back issue
  two requests.
\<close>

theorem searchTrack_dedup_counterexample:
  "length (fetchLog (world (callSearchTrack asciiLower
             (callSearchTrack asciiLower emptyRun (js ''Taylor Swift'') (js ''Anti-Hero''))
             (js ''Taylor Swift'') (js ''Anti-Hero'')))) = 2
   \<and> returned (callSearchTrack asciiLower
             (callSearchTrack asciiLower emptyRun (js ''Taylor Swift'') (js ''Anti-Hero''))
             (js ''Taylor Swift'') (js ''Anti-Hero'')) = []
   \<and> pending (callSearchTrack asciiLower
             (callSearchTrack asciiLower emptyRun (js ''Taylor Swift'') (js ''Anti-Hero''))
             (js ''Taylor Swift'') (js ''Anti-Hero''))
       = [(js ''Taylor Swift'', js ''Anti-Hero''), (js ''Taylor Swift'', js ''Anti-Hero'')]"
  by code_simp

end
